theory Spec2Isabelle
  imports Complex_Main "HOL-Library.Word"
begin

section \<open>The active object of \<^verbatim>\<open>src/main.cpp\<close>\<close>

text \<open>
  The program is a dispatch queue (\<^verbatim>\<open>DispatchQueue\<close>, lines 17-40) and an active
  object (\<^verbatim>\<open>BecomeActiveObject\<close>, lines 42-122) whose public methods package their
  bodies as closures, put them on the queue and leave their execution to one worker
  thread.

  The embedding is an interleaving semantics. Every step is one atomic action of one
  thread: the critical sections of \<^verbatim>\<open>put\<close> and \<^verbatim>\<open>take\<close> are atomic because both hold
  \<^verbatim>\<open>qlock\<close>; \<^verbatim>\<open>done\<close> is a \<^verbatim>\<open>std::atomic\<close>; a promise is synchronised by the library.
  Memory is sequentially consistent. The closures are defunctionalised: one constructor
  for each lambda of the source, carrying what the lambda captures.

  The object's callers are any number of threads. A thread calls a method only while it is
  not blocked inside another one, and the references it passes denote variables on its
  own stack. Nothing else is assumed of them: they may call after shutdown was requested,
  and the destructor may be called while other calls are in flight.

  The field \<^verbatim>\<open>val\<close> is a \<^verbatim>\<open>double\<close>. The program stores 0 and 2.0 in it and does no
  arithmetic, so the reals hold it exactly.
\<close>

subsection \<open>Values, addresses, closures\<close>

type_synonym tid = nat

text \<open>A C++ \<^verbatim>\<open>int\<close>. The program only stores, copies, compares and prints them.\<close>

type_synonym cint = "32 word"

text \<open>A local variable of a caller thread: the thread whose stack holds it, and its number.\<close>

datatype addr = Local tid nat

fun owner :: "addr \<Rightarrow> tid" where
  "owner (Local t n) = t"

text \<open>
  \<^verbatim>\<open>using Operation = std::function<void()>\<close> (line 15). The lambdas of the source:
  \<^item> \<open>SetDone\<close>: \<^verbatim>\<open>[&]() { done = true; }\<close> (line 58);
  \<^item> \<open>DoSomethingOp t\<close>: the lambda of lines 76-79, which captures by reference the
    promise \<^verbatim>\<open>return_val\<close> in the frame of the calling thread \<open>t\<close>;
  \<^item> \<open>DoSomethingElseOp\<close>: \<^verbatim>\<open>[this]() { this->val = 2.0; }\<close> (line 90);
  \<^item> \<open>DoSomethingWithParamsOp a b\<close>: the lambda of lines 99-102, which captures the
    two integers by value;
  \<^item> \<open>DoSomethingWithReferenceParamsOp a b t\<close>: the lambda of lines 112-118, which
    captures the two references and the promise in the frame of thread \<open>t\<close>.
\<close>

datatype Operation =
    SetDone
  | DoSomethingOp tid
  | DoSomethingElseOp
  | DoSomethingWithParamsOp cint cint
  | DoSomethingWithReferenceParamsOp addr addr tid

subsection \<open>DispatchQueue (lines 17-40)\<close>

text \<open>
  \<open>ops_queue\<close> is the \<^verbatim>\<open>std::queue\<close>, head first. \<open>empty_waiting\<close> is the wait set of
  the condition variable \<^verbatim>\<open>empty\<close>: the one consumer is asleep in \<^verbatim>\<open>empty.wait\<close>.
  The mutex \<^verbatim>\<open>qlock\<close> is the atomicity of \<open>put\<close> and \<open>take_op\<close>.
\<close>

record DispatchQueue =
  ops_queue :: "Operation list"
  empty_waiting :: bool

text \<open>Lines 24-29: push at the tail, then \<^verbatim>\<open>notify_one\<close>.\<close>

definition put :: "Operation \<Rightarrow> DispatchQueue \<Rightarrow> DispatchQueue" where
  "put op q = q\<lparr>ops_queue := ops_queue q @ [op], empty_waiting := False\<rparr>"

text \<open>
  Lines 31-39, one evaluation of the wait predicate under the lock: on an empty queue the
  consumer releases the lock and sleeps; otherwise it pops the front and returns it.
\<close>

datatype take_result = Blocked DispatchQueue | Taken Operation DispatchQueue

definition take_op :: "DispatchQueue \<Rightarrow> take_result" where
  "take_op q =
     (case ops_queue q of
        [] \<Rightarrow> Blocked (q\<lparr>empty_waiting := True\<rparr>)
      | op # rest \<Rightarrow> Taken op (q\<lparr>ops_queue := rest\<rparr>))"

text \<open>A sequence of puts, and a sequence of takes none of which may block.\<close>

fun put_all :: "Operation list \<Rightarrow> DispatchQueue \<Rightarrow> DispatchQueue" where
  "put_all [] q = q"
| "put_all (op # ops) q = put_all ops (put op q)"

fun take_n :: "nat \<Rightarrow> DispatchQueue \<Rightarrow> (Operation list \<times> DispatchQueue) option" where
  "take_n 0 q = Some ([], q)"
| "take_n (Suc n) q =
     (case take_op q of
        Blocked q' \<Rightarrow> None
      | Taken op q' \<Rightarrow>
          (case take_n n q' of None \<Rightarrow> None | Some (ops, q'') \<Rightarrow> Some (op # ops, q'')))"

subsection \<open>BecomeActiveObject (lines 42-122)\<close>

text \<open>
  What can go wrong when the worker runs a closure: \<^verbatim>\<open>set_value\<close> on a promise that
  already holds a value throws, and a captured reference into a frame that is gone
  dangles.
\<close>

datatype fault = PromiseAlreadySatisfied | DanglingReference

text \<open>
  The worker thread \<^verbatim>\<open>runnable\<close>, by its place in \<^verbatim>\<open>run\<close> (lines 64-70): about to test
  \<^verbatim>\<open>!done\<close>, inside \<^verbatim>\<open>take\<close>, running the closure it took, returned from \<^verbatim>\<open>run\<close>, or
  terminated by a fault.
\<close>

datatype thread_state = LoopHead | InTake | Running Operation | Exited | Crashed fault

record BecomeActiveObject =
  val :: real
  dispatchQueue :: DispatchQueue
  "done" :: bool
  runnable :: thread_state

text \<open>
  What a caller thread is doing: nothing, blocked in \<^verbatim>\<open>doSomething\<close> with its promise
  (\<open>None\<close>: no value yet), blocked in \<^verbatim>\<open>doSomethingWithReferenceParams\<close> with its two
  references and its promise (\<open>False\<close>: not yet signalled), or blocked in the
  destructor's \<^verbatim>\<open>join\<close>. The promise \<^verbatim>\<open>return_val\<close> of a blocking call is a local of
  the method, so it lives in the frame, and the closure of the call reaches it through the
  thread: a closure run when that thread is in no such call hits a dangling reference.
\<close>

datatype frame =
    Idle
  | DoSomething_frame "cint option"
  | DoSomethingWithReferenceParams_frame addr addr bool
  | Destructor_frame

text \<open>What \<^verbatim>\<open>std::cout\<close> received, one item for each \<^verbatim>\<open><<\<close>.\<close>

datatype out_item = OutStr string | OutInt cint

record world =
  active :: BecomeActiveObject
  frames :: "tid \<Rightarrow> frame"
  mem :: "addr \<Rightarrow> cint"
  cout :: "out_item list"

text \<open>Lines 51-54: the constructor; the new thread is about to enter \<^verbatim>\<open>run\<close>.\<close>

definition BecomeActiveObject_new :: BecomeActiveObject where
  "BecomeActiveObject_new =
     \<lparr>val = 0, dispatchQueue = \<lparr>ops_queue = [], empty_waiting = False\<rparr>,
      done = False, runnable = LoopHead\<rparr>"

definition init :: world where
  "init = \<lparr>active = BecomeActiveObject_new, frames = (\<lambda>t. Idle), mem = (\<lambda>a. 0), cout = []\<rparr>"

text \<open>Line 62.\<close>

definition getVal :: "BecomeActiveObject \<Rightarrow> real" where
  "getVal obj = val obj"

text \<open>\<^verbatim>\<open>dispatchQueue.put(op)\<close> on the object's queue.\<close>

definition enqueue :: "Operation \<Rightarrow> world \<Rightarrow> world" where
  "enqueue op s =
     s\<lparr>active := (active s)\<lparr>dispatchQueue := put op (dispatchQueue (active s))\<rparr>\<rparr>"

definition set_runnable :: "thread_state \<Rightarrow> world \<Rightarrow> world" where
  "set_runnable st s = s\<lparr>active := (active s)\<lparr>runnable := st\<rparr>\<rparr>"

definition set_frame :: "tid \<Rightarrow> frame \<Rightarrow> world \<Rightarrow> world" where
  "set_frame t f s = s\<lparr>frames := (frames s)(t := f)\<rparr>"

text \<open>
  The bodies of the closures, run by the worker (\<^verbatim>\<open>operator()\<close>). A body is one step:
  it touches the object's fields, which no other thread writes, or the frame and the
  variables of a caller that stays blocked until the body has signalled its promise.
\<close>

fun call_op :: "Operation \<Rightarrow> world \<Rightarrow> fault + world" where
  "call_op SetDone s = Inr (s\<lparr>active := (active s)\<lparr>done := True\<rparr>\<rparr>)"
| "call_op (DoSomethingOp t) s =
     (case frames s t of
        DoSomething_frame None \<Rightarrow> Inr (set_frame t (DoSomething_frame (Some 999)) s)
      | DoSomething_frame (Some v) \<Rightarrow> Inl PromiseAlreadySatisfied
      | _ \<Rightarrow> Inl DanglingReference)"
| "call_op DoSomethingElseOp s = Inr (s\<lparr>active := (active s)\<lparr>val := 2\<rparr>\<rparr>)"
| "call_op (DoSomethingWithParamsOp a b) s =
     Inr (s\<lparr>cout := cout s @
            [OutStr ''this is the internal implementation of doSomethingWithParams('',
             OutInt a, OutStr '','', OutInt b, OutStr '')\<newline>'']\<rparr>)"
| "call_op (DoSomethingWithReferenceParamsOp a b t) s =
     (case frames s t of
        DoSomethingWithReferenceParams_frame a' b' False \<Rightarrow>
          Inr (set_frame t (DoSomethingWithReferenceParams_frame a' b' True)
                (s\<lparr>cout := cout s @
                     [OutStr ''this is the internal implementation of doSomethingWithReferenceParams('',
                      OutInt (mem s a), OutStr '','', OutInt (mem s b), OutStr '')\<newline>''],
                   mem := ((mem s)(a := 1234))(b := 5678)\<rparr>))
      | DoSomethingWithReferenceParams_frame a' b' True \<Rightarrow> Inl PromiseAlreadySatisfied
      | _ \<Rightarrow> Inl DanglingReference)"

subsection \<open>The steps of the threads\<close>

text \<open>
  One event is one atomic action. A call event is a public method up to the point where
  it returns or blocks; a return event is a blocked method coming back. The worker's
  events follow \<^verbatim>\<open>run\<close>: the test of the loop, \<^verbatim>\<open>take\<close>, the call of the closure. A
  sleeping consumer may wake up with no notification (\<open>Spurious_wake\<close>). \<open>Assign\<close> is a
  caller thread writing one of its own local variables.
\<close>

datatype event =
    Call_doSomething tid
  | Ret_doSomething tid cint
  | Call_doSomethingElse tid
  | Call_doSomethingWithParams tid cint cint
  | Call_doSomethingWithReferenceParams tid addr addr
  | Ret_doSomethingWithReferenceParams tid
  | Call_getVal tid
  | Call_destructor tid
  | Ret_destructor tid
  | Assign tid nat cint
  | Worker_test
  | Worker_take
  | Worker_exec Operation
  | Spurious_wake

text \<open>
  \<open>step s e\<close> is the state after \<open>e\<close>, or \<open>None\<close> when \<open>e\<close> cannot happen in \<open>s\<close>:
  a thread that is blocked makes no call, \<^verbatim>\<open>future.get()\<close> returns only once the promise
  is satisfied, \<^verbatim>\<open>join\<close> only once the worker has left \<^verbatim>\<open>run\<close>. A reference parameter
  denotes a variable of the calling thread.
\<close>

fun step :: "world \<Rightarrow> event \<Rightarrow> world option" where
  "step s (Call_doSomething t) =
     (if frames s t = Idle
      then Some (enqueue (DoSomethingOp t) (set_frame t (DoSomething_frame None) s))
      else None)"
| "step s (Ret_doSomething t v) =
     (if frames s t = DoSomething_frame (Some v) then Some (set_frame t Idle s) else None)"
| "step s (Call_doSomethingElse t) =
     (if frames s t = Idle then Some (enqueue DoSomethingElseOp s) else None)"
| "step s (Call_doSomethingWithParams t a b) =
     (if frames s t = Idle then Some (enqueue (DoSomethingWithParamsOp a b) s) else None)"
| "step s (Call_doSomethingWithReferenceParams t a b) =
     (if frames s t = Idle \<and> owner a = t \<and> owner b = t
      then Some (enqueue (DoSomethingWithReferenceParamsOp a b t)
                  (set_frame t (DoSomethingWithReferenceParams_frame a b False) s))
      else None)"
| "step s (Ret_doSomethingWithReferenceParams t) =
     (case frames s t of
        DoSomethingWithReferenceParams_frame a b True \<Rightarrow> Some (set_frame t Idle s)
      | _ \<Rightarrow> None)"
| "step s (Call_getVal t) = (if frames s t = Idle then Some s else None)"
| "step s (Call_destructor t) =
     (if frames s t = Idle
      then Some (enqueue SetDone (set_frame t Destructor_frame s))
      else None)"
| "step s (Ret_destructor t) =
     (if frames s t = Destructor_frame \<and> runnable (active s) = Exited
      then Some (set_frame t Idle s)
      else None)"
| "step s (Assign t n v) =
     (if frames s t = Idle then Some (s\<lparr>mem := (mem s)(Local t n := v)\<rparr>) else None)"
| "step s Worker_test =
     (if runnable (active s) = LoopHead
      then Some (set_runnable (if done (active s) then Exited else InTake) s)
      else None)"
| "step s Worker_take =
     (if runnable (active s) = InTake \<and> \<not> empty_waiting (dispatchQueue (active s))
      then (case take_op (dispatchQueue (active s)) of
              Blocked q' \<Rightarrow> Some (s\<lparr>active := (active s)\<lparr>dispatchQueue := q'\<rparr>\<rparr>)
            | Taken op q' \<Rightarrow>
                Some (s\<lparr>active := (active s)\<lparr>dispatchQueue := q', runnable := Running op\<rparr>\<rparr>))
      else None)"
| "step s (Worker_exec op) =
     (if runnable (active s) = Running op
      then (case call_op op s of
              Inl f \<Rightarrow> Some (set_runnable (Crashed f) s)
            | Inr s' \<Rightarrow> Some (set_runnable LoopHead s'))
      else None)"
| "step s Spurious_wake =
     (if runnable (active s) = InTake \<and> empty_waiting (dispatchQueue (active s))
      then Some (s\<lparr>active := (active s)\<lparr>dispatchQueue :=
                   (dispatchQueue (active s))\<lparr>empty_waiting := False\<rparr>\<rparr>\<rparr>)
      else None)"

fun run_trace :: "world \<Rightarrow> event list \<Rightarrow> world option" where
  "run_trace s [] = Some s"
| "run_trace s (e # es) = (case step s e of None \<Rightarrow> None | Some s' \<Rightarrow> run_trace s' es)"

text \<open>The closures a trace puts on the queue and the closures it runs, in order.\<close>

fun put_of :: "event \<Rightarrow> Operation list" where
  "put_of (Call_doSomething t) = [DoSomethingOp t]"
| "put_of (Call_doSomethingElse t) = [DoSomethingElseOp]"
| "put_of (Call_doSomethingWithParams t a b) = [DoSomethingWithParamsOp a b]"
| "put_of (Call_doSomethingWithReferenceParams t a b) = [DoSomethingWithReferenceParamsOp a b t]"
| "put_of (Call_destructor t) = [SetDone]"
| "put_of e = []"

fun exec_of :: "event \<Rightarrow> Operation list" where
  "exec_of (Worker_exec op) = [op]"
| "exec_of e = []"

definition puts_of :: "event list \<Rightarrow> Operation list" where
  "puts_of tr = concat (map put_of tr)"

definition execs_of :: "event list \<Rightarrow> Operation list" where
  "execs_of tr = concat (map exec_of tr)"

text \<open>The closures taken or waiting to be taken: the one the worker runs, then the queue.\<close>

definition in_flight :: "world \<Rightarrow> Operation list" where
  "in_flight s = (case runnable (active s) of Running op \<Rightarrow> [op] | _ \<Rightarrow> [])"

definition pending :: "world \<Rightarrow> Operation list" where
  "pending s = in_flight s @ ops_queue (dispatchQueue (active s))"

subsection \<open>Invariants of the reachable states\<close>

text \<open>
  A closure that signals a promise has a waiter: the thread whose frame holds the promise.
  A frame whose promise is not yet satisfied awaits its closure.
\<close>

fun waiter :: "Operation \<Rightarrow> tid option" where
  "waiter (DoSomethingOp t) = Some t"
| "waiter (DoSomethingWithReferenceParamsOp a b t) = Some t"
| "waiter op = None"

fun awaits :: "frame \<Rightarrow> tid \<Rightarrow> Operation option" where
  "awaits (DoSomething_frame None) t = Some (DoSomethingOp t)"
| "awaits (DoSomethingWithReferenceParams_frame a b False) t =
     Some (DoSomethingWithReferenceParamsOp a b t)"
| "awaits f t = None"

definition calls_ok :: "Operation list \<Rightarrow> (tid \<Rightarrow> frame) \<Rightarrow> bool" where
  "calls_ok P F \<longleftrightarrow>
     (\<forall>op t. op \<in> set P \<longrightarrow> waiter op = Some t \<longrightarrow> awaits (F t) t = Some op) \<and>
     (\<forall>t op. awaits (F t) t = Some op \<longrightarrow> op \<in> set P) \<and>
     distinct (filter (\<lambda>op. waiter op \<noteq> None) P)"

definition quiet :: "event \<Rightarrow> bool" where
  "quiet e \<longleftrightarrow> e = Worker_test \<or> e = Worker_take \<or> e = Spurious_wake \<or> (\<exists>t. e = Call_getVal t)"

fun frame_ok :: "tid \<Rightarrow> (addr \<Rightarrow> cint) \<Rightarrow> frame \<Rightarrow> bool" where
  "frame_ok t m (DoSomething_frame (Some v)) = (v = 999)"
| "frame_ok t m (DoSomethingWithReferenceParams_frame a b g) =
     (owner a = t \<and> owner b = t \<and> (g \<longrightarrow> m b = 5678 \<and> (a \<noteq> b \<longrightarrow> m a = 1234)))"
| "frame_ok t m f = True"

definition frames_ok :: "world \<Rightarrow> bool" where
  "frames_ok s \<longleftrightarrow> (\<forall>t. frame_ok t (mem s) (frames s t))"

definition inv_worker :: "world \<Rightarrow> bool" where
  "inv_worker s \<longleftrightarrow>
     (done (active s) \<longrightarrow> runnable (active s) = LoopHead \<or> runnable (active s) = Exited) \<and>
     (runnable (active s) = Exited \<longrightarrow> done (active s)) \<and>
     (empty_waiting (dispatchQueue (active s)) \<longrightarrow>
        runnable (active s) = InTake \<and> ops_queue (dispatchQueue (active s)) = [])"

definition alive :: "world \<Rightarrow> bool" where
  "alive s \<longleftrightarrow> (\<forall>f. runnable (active s) \<noteq> Crashed f)"

definition inv :: "world \<Rightarrow> bool" where
  "inv s \<longleftrightarrow> calls_ok (pending s) (frames s) \<and> frames_ok s \<and> inv_worker s \<and> alive s"

subsection \<open>Concrete runs\<close>

text \<open>
  The worker asleep on the empty queue, and one schedule of \<^verbatim>\<open>main\<close> (lines 125-139):
  thread 0 is the main thread, thread 1 is \<^verbatim>\<open>t1\<close>, and the variables \<^verbatim>\<open>a\<close> and \<^verbatim>\<open>b\<close> of
  \<^verbatim>\<open>main\<close> are \<open>Local 0 0\<close> and \<open>Local 0 1\<close>. The run ends with the destructor of
  \<^verbatim>\<open>active\<close>.
\<close>

definition asleep :: world where
  "asleep =
     init\<lparr>active := BecomeActiveObject_new
       \<lparr>dispatchQueue := \<lparr>ops_queue = [], empty_waiting = True\<rparr>, runnable := InTake\<rparr>\<rparr>"

definition main_trace :: "event list" where
  "main_trace =
     [Call_doSomething 0, Worker_test, Worker_take, Worker_exec (DoSomethingOp 0),
      Ret_doSomething 0 999,
      Call_doSomethingElse 1,
      Call_doSomethingWithParams 0 5 7,
      Assign 0 0 1, Assign 0 1 2,
      Call_doSomethingWithReferenceParams 0 (Local 0 0) (Local 0 1),
      Worker_test, Worker_take, Worker_exec DoSomethingElseOp,
      Worker_test, Worker_take, Worker_exec (DoSomethingWithParamsOp 5 7),
      Worker_test, Worker_take,
      Worker_exec (DoSomethingWithReferenceParamsOp (Local 0 0) (Local 0 1) 0),
      Ret_doSomethingWithReferenceParams 0,
      Call_getVal 0,
      Call_destructor 0,
      Worker_test, Worker_take, Worker_exec SetDone, Worker_test,
      Ret_destructor 0]"

text \<open>
  A run in which the destructor is called while a closure is queued and another is put
  behind the sentinel, up to the moment the worker has run the sentinel; and what other
  threads do afterwards.
\<close>

definition shutdown_trace :: "event list" where
  "shutdown_trace =
     [Call_doSomethingElse 0, Call_destructor 0, Call_doSomethingWithParams 1 3 4, Worker_test,
      Worker_take, Worker_exec DoSomethingElseOp, Worker_test, Worker_take, Worker_exec SetDone]"

definition late_trace :: "event list" where
  "late_trace = [Call_doSomethingElse 1, Worker_test, Call_doSomething 1, Ret_destructor 0]"

subsection \<open>Progress of the worker\<close>

text \<open>
  The events of the worker thread, their number in a trace, and a bound on the worker
  steps that \<^verbatim>\<open>run\<close> needs from a given place to finish \<open>n\<close> more closures: the test,
  the take and the call for each.
\<close>

fun is_worker :: "event \<Rightarrow> bool" where
  "is_worker Worker_test = True"
| "is_worker Worker_take = True"
| "is_worker (Worker_exec op) = True"
| "is_worker Spurious_wake = True"
| "is_worker e = False"

definition worker_steps :: "event list \<Rightarrow> nat" where
  "worker_steps tr = length (filter is_worker tr)"

fun need :: "thread_state \<Rightarrow> nat \<Rightarrow> nat" where
  "need st 0 = 0"
| "need LoopHead (Suc n) = 3 * n + 3"
| "need InTake (Suc n) = 3 * n + 2"
| "need (Running op) (Suc n) = 3 * n + 1"
| "need st (Suc n) = 0"

text \<open>
  A call of \<^verbatim>\<open>doSomething\<close> served by the worker; then its return, a closure put by
  another thread and a second call; then the worker serving both while the other thread
  goes on.
\<close>

definition call_trace :: "event list" where
  "call_trace = [Call_doSomething 0, Worker_test, Worker_take, Worker_exec (DoSomethingOp 0)]"

definition second_call_trace :: "event list" where
  "second_call_trace =
     call_trace @ [Ret_doSomething 0 999, Call_doSomethingElse 1, Call_doSomething 0]"

definition serve_trace :: "event list" where
  "serve_trace =
     [Worker_test, Assign 1 0 7, Worker_take, Worker_exec DoSomethingElseOp,
      Call_doSomethingElse 1, Worker_test, Worker_take, Worker_exec (DoSomethingOp 0)]"

text \<open>
  A call of \<^verbatim>\<open>doSomethingWithReferenceParams\<close> with two variables of the caller, and a
  call that passes one variable twice, each up to the moment the worker has run the
  closure.
\<close>

definition refs_trace :: "event list" where
  "refs_trace =
     [Assign 0 0 1, Assign 0 1 2,
      Call_doSomethingWithReferenceParams 0 (Local 0 0) (Local 0 1),
      Worker_test, Worker_take,
      Worker_exec (DoSomethingWithReferenceParamsOp (Local 0 0) (Local 0 1) 0)]"

definition alias_trace :: "event list" where
  "alias_trace =
     [Assign 0 0 1,
      Call_doSomethingWithReferenceParams 0 (Local 0 0) (Local 0 0),
      Worker_test, Worker_take,
      Worker_exec (DoSomethingWithReferenceParamsOp (Local 0 0) (Local 0 0) 0)]"

subsection \<open>Which thread touches \<^verbatim>\<open>val\<close>\<close>

text \<open>
  The events that read or write the field \<^verbatim>\<open>val\<close>, with the thread that does it:
  \<^verbatim>\<open>getVal\<close> (line 62) runs on the thread that calls it; the closure of
  \<^verbatim>\<open>doSomethingElse\<close> (line 90) runs on the worker. Nothing else names \<^verbatim>\<open>val\<close>.
\<close>

datatype thread = Worker | Caller tid

fun val_access :: "event \<Rightarrow> thread option" where
  "val_access (Call_getVal t) = Some (Caller t)"
| "val_access (Worker_exec DoSomethingElseOp) = Some Worker"
| "val_access e = None"

text \<open>
  A schedule of \<^verbatim>\<open>main\<close> in which thread \<^verbatim>\<open>t1\<close> puts the closure of
  \<^verbatim>\<open>doSomethingElse\<close> only after the worker has served the blocking call of line 134;
  \<^verbatim>\<open>t1\<close> has then finished, \<^verbatim>\<open>t1.join()\<close> returns, and \<^verbatim>\<open>main\<close> calls \<^verbatim>\<open>getVal\<close>
  (line 137).
\<close>

definition race_trace :: "event list" where
  "race_trace =
     [Call_doSomething 0, Worker_test, Worker_take, Worker_exec (DoSomethingOp 0),
      Ret_doSomething 0 999,
      Call_doSomethingWithParams 0 5 7,
      Assign 0 0 1, Assign 0 1 2,
      Call_doSomethingWithReferenceParams 0 (Local 0 0) (Local 0 1),
      Worker_test, Worker_take, Worker_exec (DoSomethingWithParamsOp 5 7),
      Worker_test, Worker_take,
      Worker_exec (DoSomethingWithReferenceParamsOp (Local 0 0) (Local 0 1) 0),
      Ret_doSomethingWithReferenceParams 0,
      Call_doSomethingElse 1,
      Call_getVal 0]"

text \<open>
  A caller that passes the values of two of its variables to \<^verbatim>\<open>doSomethingWithParams\<close>
  and overwrites both variables before the worker runs the closure.
\<close>

definition value_trace :: "event list" where
  "value_trace =
     [Assign 0 0 5, Assign 0 1 7,
      Call_doSomethingWithParams 0 5 7,
      Assign 0 0 100, Assign 0 1 200,
      Worker_test, Worker_take, Worker_exec (DoSomethingWithParamsOp 5 7)]"

text \<open>
  A destructor call behind one queued closure, and the worker draining the queue while
  another thread keeps putting.
\<close>

definition request_trace :: "event list" where
  "request_trace = [Call_doSomethingElse 1, Call_destructor 0]"

definition drain_trace :: "event list" where
  "drain_trace =
     [Worker_test, Worker_take, Call_doSomethingElse 1, Worker_exec DoSomethingElseOp,
      Worker_test, Worker_take, Worker_exec SetDone, Worker_test]"

section \<open>DispatchQueue\<close>

lemma ops_queue_put_all: "ops_queue (put_all ops q) = ops_queue q @ ops"
  by (induction ops arbitrary: q) (simp_all add: put_def)

lemma take_n_prefix:
  "n \<le> length (ops_queue q) \<Longrightarrow>
   take_n n q = Some (take n (ops_queue q), q\<lparr>ops_queue := drop n (ops_queue q)\<rparr>)"
proof (induction n arbitrary: q)
  case 0
  then show ?case by simp
next
  case (Suc n)
  then obtain op rest where q: "ops_queue q = op # rest"
    by (cases "ops_queue q") auto
  with Suc.prems have "n \<le> length (ops_queue (q\<lparr>ops_queue := rest\<rparr>))"
    by simp
  from Suc.IH [OF this] q show ?case
    by (simp add: take_op_def)
qed

section \<open>Traces\<close>

lemmas step_defs = enqueue_def set_frame_def set_runnable_def put_def take_op_def

lemma call_op_active:
  "call_op op s = Inr s' \<Longrightarrow>
   dispatchQueue (active s') = dispatchQueue (active s) \<and>
   runnable (active s') = runnable (active s)"
  by (cases op) (auto simp: set_frame_def split: frame.splits option.splits bool.splits)

lemma step_pending:
  "step s e = Some s' \<Longrightarrow> pending s @ put_of e = exec_of e @ pending s'"
  by (cases e)
    (auto simp: pending_def in_flight_def step_defs dest: call_op_active
      split: if_splits frame.splits option.splits bool.splits list.splits sum.splits)

lemma run_trace_append:
  "run_trace s (tr @ tr') =
     (case run_trace s tr of None \<Rightarrow> None | Some s1 \<Rightarrow> run_trace s1 tr')"
  by (induction tr arbitrary: s) (auto split: option.splits)

lemma run_trace_snoc:
  "run_trace s (tr @ [e]) = Some s' \<longleftrightarrow> (\<exists>s1. run_trace s tr = Some s1 \<and> step s1 e = Some s')"
  by (auto simp: run_trace_append split: option.splits)

lemma puts_of_simps [simp]:
  "puts_of [] = []" "puts_of (e # tr) = put_of e @ puts_of tr"
  "puts_of (tr @ tr') = puts_of tr @ puts_of tr'"
  by (simp_all add: puts_of_def)

lemma execs_of_simps [simp]:
  "execs_of [] = []" "execs_of (e # tr) = exec_of e @ execs_of tr"
  "execs_of (tr @ tr') = execs_of tr @ execs_of tr'"
  by (simp_all add: execs_of_def)

lemma run_trace_pending:
  "run_trace s tr = Some s' \<Longrightarrow> pending s @ puts_of tr = execs_of tr @ pending s'"
proof (induction tr arbitrary: s)
  case Nil
  then show ?case by simp
next
  case (Cons e tr)
  then obtain s1 where e: "step s e = Some s1" and tr: "run_trace s1 tr = Some s'"
    by (auto split: option.splits)
  have "pending s @ puts_of (e # tr) = (pending s @ put_of e) @ puts_of tr"
    by simp
  also have "\<dots> = exec_of e @ (pending s1 @ puts_of tr)"
    using step_pending [OF e] by simp
  also have "\<dots> = execs_of (e # tr) @ pending s'"
    using Cons.IH [OF tr] by simp
  finally show ?case .
qed

lemma run_trace_split:
  "run_trace s (tr1 @ e # tr2) = Some s' \<Longrightarrow>
   \<exists>s1 s2. run_trace s tr1 = Some s1 \<and> step s1 e = Some s2 \<and> run_trace s2 tr2 = Some s'"
  by (auto simp: run_trace_append split: option.splits)

section \<open>Invariants\<close>

lemma calls_ok_pending:
  "calls_ok P F \<Longrightarrow> op \<in> set P \<Longrightarrow> waiter op = Some t \<Longrightarrow> awaits (F t) t = Some op"
  unfolding calls_ok_def by blast

lemma calls_ok_waiting: "calls_ok P F \<Longrightarrow> awaits (F t) t = Some op \<Longrightarrow> op \<in> set P"
  unfolding calls_ok_def by blast

lemma calls_ok_distinct: "calls_ok P F \<Longrightarrow> distinct (filter (\<lambda>op. waiter op \<noteq> None) P)"
  unfolding calls_ok_def by blast

lemma awaits_waiter: "awaits f t = Some op \<Longrightarrow> waiter op = Some t"
  by (cases "(f, t)" rule: awaits.cases) auto

lemma calls_ok_put:
  assumes ok: "calls_ok P F" and idle: "awaits (F t) t = None"
    and f: "awaits f t = (if waiter op = None then None else Some op)"
    and w: "waiter op = None \<or> waiter op = Some t"
  shows "calls_ok (P @ [op]) (F(t := f))"
  unfolding calls_ok_def
proof (intro conjI allI impI)
  fix op' t'
  assume a: "op' \<in> set (P @ [op])" "waiter op' = Some t'"
  show "awaits ((F(t := f)) t') t' = Some op'"
  proof (cases "op' \<in> set P")
    case True
    from calls_ok_pending [OF ok True a(2)] idle show ?thesis
      by (cases "t' = t") auto
  next
    case False
    with a have "op' = op" by simp
    with a(2) f w show ?thesis by auto
  qed
next
  fix t' op'
  assume a: "awaits ((F(t := f)) t') t' = Some op'"
  show "op' \<in> set (P @ [op])"
  proof (cases "t' = t")
    case True
    with a f show ?thesis by (auto split: if_splits)
  next
    case False
    with a have "awaits (F t') t' = Some op'" by simp
    from calls_ok_waiting [OF ok this] show ?thesis by simp
  qed
next
  have "op \<notin> set P" if "waiter op \<noteq> None"
  proof
    assume "op \<in> set P"
    moreover from that w have "waiter op = Some t" by auto
    ultimately have "awaits (F t) t = Some op" by (rule calls_ok_pending [OF ok])
    with idle show False by simp
  qed
  with calls_ok_distinct [OF ok]
  show "distinct (filter (\<lambda>op. waiter op \<noteq> None) (P @ [op]))" by auto
qed

lemma calls_ok_put_plain:
  assumes ok: "calls_ok P F" and w: "waiter op = None"
  shows "calls_ok (P @ [op]) F"
  unfolding calls_ok_def
proof (intro conjI allI impI)
  fix op' t'
  assume "op' \<in> set (P @ [op])" "waiter op' = Some t'"
  with w have "op' \<in> set P" by auto
  then show "awaits (F t') t' = Some op'"
    using \<open>waiter op' = Some t'\<close> by (rule calls_ok_pending [OF ok])
next
  fix t' op'
  assume "awaits (F t') t' = Some op'"
  from calls_ok_waiting [OF ok this] show "op' \<in> set (P @ [op])" by simp
next
  from calls_ok_distinct [OF ok] w
  show "distinct (filter (\<lambda>op. waiter op \<noteq> None) (P @ [op]))" by simp
qed

lemma calls_ok_frame:
  assumes ok: "calls_ok P F" and idle: "awaits (F t) t = None" and f: "awaits f t = None"
  shows "calls_ok P (F(t := f))"
  unfolding calls_ok_def
proof (intro conjI allI impI)
  fix op' t'
  assume a: "op' \<in> set P" "waiter op' = Some t'"
  from calls_ok_pending [OF ok a] idle
  show "awaits ((F(t := f)) t') t' = Some op'" by (cases "t' = t") auto
next
  fix t' op'
  assume a: "awaits ((F(t := f)) t') t' = Some op'"
  with f have "t' \<noteq> t" by auto
  with a have "awaits (F t') t' = Some op'" by simp
  then show "op' \<in> set P" by (rule calls_ok_waiting [OF ok])
next
  from calls_ok_distinct [OF ok] show "distinct (filter (\<lambda>op. waiter op \<noteq> None) P)" .
qed

lemma calls_ok_exec_plain:
  assumes ok: "calls_ok (op # P) F" and w: "waiter op = None"
  shows "calls_ok P F"
  unfolding calls_ok_def
proof (intro conjI allI impI)
  fix op' t'
  assume "op' \<in> set P" "waiter op' = Some t'"
  then show "awaits (F t') t' = Some op'"
    using calls_ok_pending [OF ok, of op' t'] by simp
next
  fix t' op'
  assume a: "awaits (F t') t' = Some op'"
  from calls_ok_waiting [OF ok a] awaits_waiter [OF a] w show "op' \<in> set P" by auto
next
  from calls_ok_distinct [OF ok] w show "distinct (filter (\<lambda>op. waiter op \<noteq> None) P)"
    by simp
qed

lemma calls_ok_exec_blocking:
  assumes ok: "calls_ok (op # P) F" and w: "waiter op = Some t" and f: "awaits f t = None"
  shows "calls_ok P (F(t := f))"
  unfolding calls_ok_def
proof (intro conjI allI impI)
  from calls_ok_distinct [OF ok] w have notin: "op \<notin> set P" by simp
  from calls_ok_pending [OF ok _ w] have head: "awaits (F t) t = Some op" by simp
  {
    fix op' t'
    assume a: "op' \<in> set P" "waiter op' = Some t'"
    from calls_ok_pending [OF ok _ a(2)] a(1) have b: "awaits (F t') t' = Some op'" by simp
    with head notin a(1) have "t' \<noteq> t" by auto
    with b show "awaits ((F(t := f)) t') t' = Some op'" by simp
  next
    fix t' op'
    assume a: "awaits ((F(t := f)) t') t' = Some op'"
    with f have ne: "t' \<noteq> t" by auto
    with a have b: "awaits (F t') t' = Some op'" by simp
    from calls_ok_waiting [OF ok b] have "op' \<in> set (op # P)" .
    moreover from awaits_waiter [OF b] w ne have "op' \<noteq> op" by auto
    ultimately show "op' \<in> set P" by simp
  }
  from calls_ok_distinct [OF ok] w show "distinct (filter (\<lambda>op. waiter op \<noteq> None) P)"
    by simp
qed

lemma awaits_DoSomethingOp [simp]:
  "awaits f t = Some (DoSomethingOp t') \<longleftrightarrow> f = DoSomething_frame None \<and> t' = t"
  by (cases "(f, t)" rule: awaits.cases) auto

lemma awaits_DoSomethingWithReferenceParamsOp [simp]:
  "awaits f t = Some (DoSomethingWithReferenceParamsOp a b t') \<longleftrightarrow>
     f = DoSomethingWithReferenceParams_frame a b False \<and> t' = t"
  by (cases "(f, t)" rule: awaits.cases) auto

lemma pending_enqueue [simp]: "pending (enqueue op s) = pending s @ [op]"
  by (simp add: pending_def in_flight_def enqueue_def put_def)

lemma pending_set_frame [simp]: "pending (set_frame t f s) = pending s"
  by (simp add: pending_def in_flight_def set_frame_def)

lemma pending_mem [simp]: "pending (s\<lparr>mem := m\<rparr>) = pending s"
  by (simp add: pending_def in_flight_def)

lemma frames_enqueue [simp]: "frames (enqueue op s) = frames s"
  by (simp add: enqueue_def)

lemma frames_set_frame [simp]: "frames (set_frame t f s) = (frames s)(t := f)"
  by (simp add: set_frame_def)

lemma frames_set_runnable [simp]: "frames (set_runnable st s) = frames s"
  by (simp add: set_runnable_def)

lemma mem_enqueue [simp]: "mem (enqueue op s) = mem s"
  by (simp add: enqueue_def)

lemma mem_set_frame [simp]: "mem (set_frame t f s) = mem s"
  by (simp add: set_frame_def)

lemma mem_set_runnable [simp]: "mem (set_runnable st s) = mem s"
  by (simp add: set_runnable_def)

lemma active_set_frame [simp]: "active (set_frame t f s) = active s"
  by (simp add: set_frame_def)

lemma runnable_enqueue [simp]: "runnable (active (enqueue op s)) = runnable (active s)"
  by (simp add: enqueue_def)

lemma runnable_set_runnable [simp]: "runnable (active (set_runnable st s)) = st"
  by (simp add: set_runnable_def)

lemma step_quiet:
  "step s e = Some s' \<Longrightarrow> quiet e \<Longrightarrow>
   pending s' = pending s \<and> frames s' = frames s \<and> mem s' = mem s \<and>
   (\<forall>f. runnable (active s) \<noteq> Crashed f \<longrightarrow> runnable (active s') \<noteq> Crashed f)"
  by (auto simp: quiet_def pending_def in_flight_def set_runnable_def take_op_def
      split: if_splits list.splits)

lemma step_exec:
  assumes st: "step s (Worker_exec op) = Some s'" and ok: "calls_ok (pending s) (frames s)"
  shows "pending s = op # pending s' \<and> runnable (active s') = LoopHead \<and>
     frames s' =
       (case op of
          DoSomethingOp t \<Rightarrow> (frames s)(t := DoSomething_frame (Some 999))
        | DoSomethingWithReferenceParamsOp a b t \<Rightarrow>
            (frames s)(t := DoSomethingWithReferenceParams_frame a b True)
        | _ \<Rightarrow> frames s) \<and>
     mem s' =
       (case op of
          DoSomethingWithReferenceParamsOp a b t \<Rightarrow> ((mem s)(a := 1234))(b := 5678)
        | _ \<Rightarrow> mem s)"
proof -
  from st have run: "runnable (active s) = Running op"
    by (simp split: if_splits)
  then have pend: "pending s = op # ops_queue (dispatchQueue (active s))"
    by (simp add: pending_def in_flight_def)
  show ?thesis
  proof (cases op)
    case SetDone
    with st run pend show ?thesis
      by (auto simp: pending_def in_flight_def set_runnable_def)
  next
    case (DoSomethingOp t)
    with pend calls_ok_pending [OF ok, of op t] have "frames s t = DoSomething_frame None"
      by simp
    with st run pend DoSomethingOp show ?thesis
      by (auto simp: pending_def in_flight_def set_runnable_def set_frame_def)
  next
    case DoSomethingElseOp
    with st run pend show ?thesis
      by (auto simp: pending_def in_flight_def set_runnable_def)
  next
    case (DoSomethingWithParamsOp a b)
    with st run pend show ?thesis
      by (auto simp: pending_def in_flight_def set_runnable_def)
  next
    case (DoSomethingWithReferenceParamsOp a b t)
    with pend calls_ok_pending [OF ok, of op t]
    have "frames s t = DoSomethingWithReferenceParams_frame a b False"
      by simp
    with st run pend DoSomethingWithReferenceParamsOp show ?thesis
      by (auto simp: pending_def in_flight_def set_runnable_def set_frame_def)
  qed
qed

lemma calls_ok_step:
  assumes ok: "calls_ok (pending s) (frames s)" and st: "step s e = Some s'"
  shows "calls_ok (pending s') (frames s')"
proof (cases e)
  case (Call_doSomething t)
  with st have "frames s t = Idle" and "s' = enqueue (DoSomethingOp t) (set_frame t (DoSomething_frame None) s)"
    by (auto split: if_splits)
  with ok show ?thesis by (simp add: calls_ok_put)
next
  case (Ret_doSomething t v)
  with st have "frames s t = DoSomething_frame (Some v)" and "s' = set_frame t Idle s"
    by (auto split: if_splits)
  with ok show ?thesis by (simp add: calls_ok_frame)
next
  case (Call_doSomethingElse t)
  with st have "frames s t = Idle" and "s' = enqueue DoSomethingElseOp s"
    by (auto split: if_splits)
  with ok show ?thesis by (simp add: calls_ok_put_plain)
next
  case (Call_doSomethingWithParams t a b)
  with st have "frames s t = Idle" and "s' = enqueue (DoSomethingWithParamsOp a b) s"
    by (auto split: if_splits)
  with ok show ?thesis by (simp add: calls_ok_put_plain)
next
  case (Call_doSomethingWithReferenceParams t a b)
  with st have "frames s t = Idle"
    and "s' = enqueue (DoSomethingWithReferenceParamsOp a b t)
                  (set_frame t (DoSomethingWithReferenceParams_frame a b False) s)"
    by (auto split: if_splits)
  with ok show ?thesis by (simp add: calls_ok_put)
next
  case (Ret_doSomethingWithReferenceParams t)
  with st obtain a b where "frames s t = DoSomethingWithReferenceParams_frame a b True"
    and "s' = set_frame t Idle s"
    by (auto split: frame.splits bool.splits)
  with ok show ?thesis by (simp add: calls_ok_frame)
next
  case (Call_getVal t)
  with st ok show ?thesis by (auto split: if_splits)
next
  case (Call_destructor t)
  with st have "frames s t = Idle" and "s' = enqueue SetDone (set_frame t Destructor_frame s)"
    by (auto split: if_splits)
  with ok show ?thesis by (simp add: calls_ok_put)
next
  case (Ret_destructor t)
  with st have "frames s t = Destructor_frame" and "s' = set_frame t Idle s"
    by (auto split: if_splits)
  with ok show ?thesis by (simp add: calls_ok_frame)
next
  case (Assign t n v)
  with st ok show ?thesis by (auto split: if_splits)
next
  case Worker_test
  with step_quiet [OF st] ok show ?thesis by (simp add: quiet_def)
next
  case Worker_take
  with step_quiet [OF st] ok show ?thesis by (simp add: quiet_def)
next
  case (Worker_exec op)
  with st have st': "step s (Worker_exec op) = Some s'" by simp
  note ex = step_exec [OF st' ok]
  from ex ok have ok': "calls_ok (op # pending s') (frames s)" by simp
  show ?thesis
  proof (cases "waiter op")
    case None
    with ex have "frames s' = frames s" by (cases op) auto
    with calls_ok_exec_plain [OF ok' None] show ?thesis by simp
  next
    case (Some t)
    with ex calls_ok_exec_blocking [OF ok' Some] show ?thesis by (cases op) auto
  qed
next
  case Spurious_wake
  with step_quiet [OF st] ok show ?thesis by (simp add: quiet_def)
qed

lemma frame_ok_other: "frame_ok t m f \<Longrightarrow> owner x \<noteq> t \<Longrightarrow> frame_ok t (m(x := v)) f"
  by (cases "(t, m, f)" rule: frame_ok.cases) auto

lemma frames_ok_step:
  assumes fr: "frames_ok s" and ok: "calls_ok (pending s) (frames s)" and st: "step s e = Some s'"
  shows "frames_ok s'"
proof (cases e)
  case (Call_doSomething t)
  with st fr show ?thesis by (auto simp: frames_ok_def split: if_splits)
next
  case (Ret_doSomething t v)
  with st fr show ?thesis by (auto simp: frames_ok_def split: if_splits)
next
  case (Call_doSomethingElse t)
  with st fr show ?thesis by (auto simp: frames_ok_def split: if_splits)
next
  case (Call_doSomethingWithParams t a b)
  with st fr show ?thesis by (auto simp: frames_ok_def split: if_splits)
next
  case (Call_doSomethingWithReferenceParams t a b)
  with st fr show ?thesis by (auto simp: frames_ok_def split: if_splits)
next
  case (Ret_doSomethingWithReferenceParams t)
  with st fr show ?thesis by (auto simp: frames_ok_def split: frame.splits bool.splits)
next
  case (Call_getVal t)
  with st fr show ?thesis by (auto split: if_splits)
next
  case (Call_destructor t)
  with st fr show ?thesis by (auto simp: frames_ok_def split: if_splits)
next
  case (Ret_destructor t)
  with st fr show ?thesis by (auto simp: frames_ok_def split: if_splits)
next
  case (Assign t n v)
  with st have idle: "frames s t = Idle" and fs: "frames s' = frames s"
    and m: "mem s' = (mem s)(Local t n := v)"
    by (auto split: if_splits)
  show ?thesis
    unfolding frames_ok_def
  proof
    fix t'
    from fr have "frame_ok t' (mem s) (frames s t')" by (simp add: frames_ok_def)
    then show "frame_ok t' (mem s') (frames s' t')"
      using idle fs m by (cases "t' = t") (simp_all add: frame_ok_other)
  qed
next
  case Worker_test
  with step_quiet [OF st] fr show ?thesis by (simp add: quiet_def frames_ok_def)
next
  case Worker_take
  with step_quiet [OF st] fr show ?thesis by (simp add: quiet_def frames_ok_def)
next
  case (Worker_exec op)
  with st have st': "step s (Worker_exec op) = Some s'" by simp
  note ex = step_exec [OF st' ok]
  show ?thesis
  proof (cases op)
    case SetDone
    with ex fr show ?thesis by (simp add: frames_ok_def)
  next
    case (DoSomethingOp t)
    with ex fr show ?thesis by (simp add: frames_ok_def)
  next
    case DoSomethingElseOp
    with ex fr show ?thesis by (simp add: frames_ok_def)
  next
    case (DoSomethingWithParamsOp a b)
    with ex fr show ?thesis by (simp add: frames_ok_def)
  next
    case (DoSomethingWithReferenceParamsOp a b t)
    with ex have pend: "op \<in> set (pending s)" by simp
    from calls_ok_pending [OF ok pend, of t] DoSomethingWithReferenceParamsOp
    have ft: "frames s t = DoSomethingWithReferenceParams_frame a b False" by simp
    from fr have "frame_ok t (mem s) (frames s t)" by (simp add: frames_ok_def)
    with ft have own: "owner a = t" "owner b = t" by simp_all
    show ?thesis
      unfolding frames_ok_def
    proof
      fix t'
      from fr have "frame_ok t' (mem s) (frames s t')" by (simp add: frames_ok_def)
      then show "frame_ok t' (mem s') (frames s' t')"
        using ex DoSomethingWithReferenceParamsOp own
        by (cases "t' = t") (simp_all add: frame_ok_other)
    qed
  qed
next
  case Spurious_wake
  with step_quiet [OF st] fr show ?thesis by (simp add: quiet_def frames_ok_def)
qed

lemma call_op_done:
  "call_op op s = Inr s' \<Longrightarrow> done (active s') = (done (active s) \<or> op = SetDone)"
  by (cases op) (auto simp: set_frame_def split: frame.splits option.splits bool.splits)

lemma inv_worker_step: "inv_worker s \<Longrightarrow> step s e = Some s' \<Longrightarrow> inv_worker s'"
  by (cases e)
    (auto simp: inv_worker_def step_defs dest: call_op_active call_op_done
      split: if_splits frame.splits option.splits bool.splits list.splits sum.splits)

lemma alive_step:
  assumes al: "alive s" and ok: "calls_ok (pending s) (frames s)" and st: "step s e = Some s'"
  shows "alive s'"
proof (cases "quiet e")
  case True
  with step_quiet [OF st] al show ?thesis by (simp add: alive_def)
next
  case False
  show ?thesis
  proof (cases "\<exists>op. e = Worker_exec op")
    case True
    then obtain op where "e = Worker_exec op" ..
    with st have "step s (Worker_exec op) = Some s'" by simp
    from step_exec [OF this ok] show ?thesis by (simp add: alive_def)
  next
    case False
    with \<open>\<not> quiet e\<close> st al show ?thesis
      by (cases e) (auto simp: alive_def quiet_def split: if_splits frame.splits bool.splits)
  qed
qed

lemma inv_init: "inv init"
  by (simp add: inv_def calls_ok_def frames_ok_def inv_worker_def alive_def init_def
      BecomeActiveObject_new_def pending_def in_flight_def)

lemma inv_step: "inv s \<Longrightarrow> step s e = Some s' \<Longrightarrow> inv s'"
  unfolding inv_def
  using calls_ok_step frames_ok_step inv_worker_step alive_step by blast

lemma inv_run_trace: "inv s \<Longrightarrow> run_trace s tr = Some s' \<Longrightarrow> inv s'"
  by (induction tr arbitrary: s) (auto split: option.splits dest: inv_step)

lemma inv_reachable: "run_trace init tr = Some s \<Longrightarrow> inv s"
  using inv_run_trace [OF inv_init] .

section \<open>The termination flag and the field \<^verbatim>\<open>val\<close>\<close>

lemma call_op_val:
  "call_op op s = Inr s' \<Longrightarrow>
   val (active s') = (if op = DoSomethingElseOp then 2 else val (active s))"
  by (cases op) (auto simp: set_frame_def split: frame.splits option.splits bool.splits)

lemma step_done:
  "step s e = Some s' \<Longrightarrow> done (active s') = (done (active s) \<or> e = Worker_exec SetDone)"
  by (cases e)
    (auto simp: step_defs dest: call_op_done
      split: if_splits frame.splits bool.splits list.splits sum.splits)

lemma step_val:
  "step s e = Some s' \<Longrightarrow>
   val (active s') = (if e = Worker_exec DoSomethingElseOp then 2 else val (active s))"
  by (cases e)
    (auto simp: step_defs dest: call_op_val
      split: if_splits frame.splits bool.splits list.splits sum.splits)

lemma run_trace_val:
  "run_trace s tr = Some s' \<Longrightarrow>
   val (active s') = (if DoSomethingElseOp \<in> set (execs_of tr) then 2 else val (active s))"
proof (induction tr arbitrary: s' rule: rev_induct)
  case Nil
  then show ?case by simp
next
  case (snoc e tr)
  then obtain s1 where tr: "run_trace s tr = Some s1" and e: "step s1 e = Some s'"
    by (auto simp: run_trace_snoc)
  from snoc.IH [OF tr] step_val [OF e] show ?case
    by (cases e) auto
qed

lemma val_written_by_worker:
  "step s e = Some s' \<Longrightarrow> val (active s') \<noteq> val (active s) \<Longrightarrow> val_access e = Some Worker"
  using step_val [of s e s'] by (auto split: if_splits)

lemma step_exec_not_done:
  "step s (Worker_exec op) = Some s' \<Longrightarrow> inv_worker s \<Longrightarrow> \<not> done (active s)"
  by (auto simp: inv_worker_def split: if_splits)

lemma done_execs:
  "run_trace init tr = Some s \<Longrightarrow>
   (if done (active s) then \<exists>xs. execs_of tr = xs @ [SetDone] \<and> SetDone \<notin> set xs
    else SetDone \<notin> set (execs_of tr))"
proof (induction tr arbitrary: s rule: rev_induct)
  case Nil
  then show ?case by (auto simp: init_def BecomeActiveObject_new_def)
next
  case (snoc e tr)
  then obtain s1 where tr: "run_trace init tr = Some s1" and e: "step s1 e = Some s"
    by (auto simp: run_trace_snoc)
  note IH = snoc.IH [OF tr]
  note d = step_done [OF e]
  show ?case
  proof (cases "\<exists>op. e = Worker_exec op")
    case True
    then obtain op where op: "e = Worker_exec op" ..
    from inv_reachable [OF tr] have "inv_worker s1" by (simp add: inv_def)
    with e op have "\<not> done (active s1)" using step_exec_not_done [of s1 op s] by simp
    with IH d op show ?thesis by auto
  next
    case False
    then have "exec_of e = []" by (cases e) auto
    with IH d False show ?thesis by auto
  qed
qed

lemma step_after_done:
  "step s e = Some s' \<Longrightarrow> done (active s) \<Longrightarrow> inv_worker s \<Longrightarrow>
   exec_of e = [] \<and> e \<noteq> Worker_take \<and>
   ops_queue (dispatchQueue (active s')) = ops_queue (dispatchQueue (active s)) @ put_of e"
  by (cases e) (auto simp: inv_worker_def step_defs split: if_splits frame.splits bool.splits)

lemma run_trace_after_done:
  "run_trace s tr = Some s' \<Longrightarrow> done (active s) \<Longrightarrow> inv_worker s \<Longrightarrow>
   execs_of tr = [] \<and> Worker_take \<notin> set tr \<and>
   ops_queue (dispatchQueue (active s')) = ops_queue (dispatchQueue (active s)) @ puts_of tr"
proof (induction tr arbitrary: s)
  case Nil
  then show ?case by simp
next
  case (Cons e tr)
  then obtain s1 where e: "step s e = Some s1" and tr: "run_trace s1 tr = Some s'"
    by (auto split: option.splits)
  from step_done [OF e] Cons.prems have d: "done (active s1)" by simp
  from inv_worker_step [OF Cons.prems(3) e] have w: "inv_worker s1" .
  from Cons.IH [OF tr d w] step_after_done [OF e Cons.prems(2,3)] show ?case by auto
qed

lemma takeWhile_until:
  "x \<notin> set xs \<Longrightarrow> takeWhile (\<lambda>y. y \<noteq> x) (xs @ ys) = xs @ takeWhile (\<lambda>y. y \<noteq> x) ys"
  by (induction xs) auto

lemma executed_before_sentinel:
  assumes "run_trace init tr = Some s"
  shows "\<exists>rest. takeWhile (\<lambda>op. op \<noteq> SetDone) (puts_of tr) @ [SetDone] = execs_of tr @ rest"
proof -
  from run_trace_pending [OF assms] have p: "puts_of tr = execs_of tr @ pending s"
    by (simp add: pending_def in_flight_def init_def BecomeActiveObject_new_def)
  show ?thesis
  proof (cases "done (active s)")
    case True
    with done_execs [OF assms] obtain xs where "execs_of tr = xs @ [SetDone]" "SetDone \<notin> set xs"
      by auto
    with p show ?thesis by (simp add: takeWhile_until)
  next
    case False
    with done_execs [OF assms] have "SetDone \<notin> set (execs_of tr)" by simp
    with p show ?thesis by (simp add: takeWhile_until)
  qed
qed

section \<open>Progress of the worker\<close>

lemma need_le: "need st n \<le> 3 * n"
  by (cases "(st, n)" rule: need.cases) auto

lemma step_caller:
  assumes "step s e = Some s'" "\<not> is_worker e"
  shows "runnable (active s') = runnable (active s) \<and> pending s' = pending s @ put_of e"
proof -
  from assms(2) have ex: "exec_of e = []" by (cases e) auto
  from step_pending [OF assms(1)] ex have "pending s' = pending s @ put_of e" by simp
  moreover from assms have "runnable (active s') = runnable (active s)"
    by (cases e) (auto simp: set_frame_def split: if_splits frame.splits bool.splits)
  ultimately show ?thesis by simp
qed

lemma worker_steps_simps [simp]:
  "worker_steps [] = 0"
  "worker_steps (e # tr) = (if is_worker e then Suc (worker_steps tr) else worker_steps tr)"
  by (simp_all add: worker_steps_def)

lemma progress:
  assumes "inv s" "\<not> done (active s)" "n \<le> length (pending s)"
    "SetDone \<notin> set (take n (pending s))" "run_trace s tr = Some s'"
    "need (runnable (active s)) n \<le> worker_steps tr"
  shows "n \<le> length (execs_of tr)"
  using assms
proof (induction tr arbitrary: s n)
  case Nil
  from Nil.prems(1,2) have "runnable (active s) \<noteq> Exited" "\<forall>f. runnable (active s) \<noteq> Crashed f"
    by (auto simp: inv_def inv_worker_def alive_def)
  with Nil.prems(6) show ?case
    by (cases "(runnable (active s), n)" rule: need.cases) auto
next
  case (Cons e tr)
  then obtain s1 where e: "step s e = Some s1" and tr: "run_trace s1 tr = Some s'"
    by (auto split: option.splits)
  note inv1 = inv_step [OF Cons.prems(1) e]
  note d = step_done [OF e]
  show ?case
  proof (cases n)
    case 0
    then show ?thesis by simp
  next
    case (Suc k)
    from Cons.prems(1,2) have live: "runnable (active s) \<noteq> Exited"
      and w: "inv_worker s"
      by (auto simp: inv_def inv_worker_def)
    show ?thesis
    proof (cases "is_worker e")
      case False
      from step_caller [OF e False] have r: "runnable (active s1) = runnable (active s)"
        and p: "pending s1 = pending s @ put_of e" by simp_all
      from False have "e \<noteq> Worker_exec SetDone" by auto
      with d Cons.prems(2) have d1: "\<not> done (active s1)" by simp
      from p Cons.prems(3) have l1: "n \<le> length (pending s1)" by simp
      from p Cons.prems(3,4) have t1: "SetDone \<notin> set (take n (pending s1))" by simp
      from Cons.prems(6) False r have n1: "need (runnable (active s1)) n \<le> worker_steps tr"
        by simp
      from Cons.IH [OF inv1 d1 l1 t1 tr n1] False show ?thesis
        by (cases e) auto
    next
      case True
      then consider "e = Worker_test" | "e = Worker_take" | "e = Spurious_wake"
        | op where "e = Worker_exec op"
        by (cases e) auto
      then show ?thesis
      proof cases
        case 1
        with e Cons.prems(2) have r: "runnable (active s) = LoopHead" "runnable (active s1) = InTake"
          and p: "pending s1 = pending s"
          by (auto simp: set_runnable_def pending_def in_flight_def split: if_splits)
        from d 1 Cons.prems(2) have d1: "\<not> done (active s1)" by simp
        from Cons.prems(6) r 1 Suc have n1: "need (runnable (active s1)) n \<le> worker_steps tr"
          by simp
        from Cons.IH [OF inv1 d1 _ _ tr n1] p Cons.prems(3,4) 1 show ?thesis by simp
      next
        case 2
        with e have r: "runnable (active s) = InTake" by (auto split: if_splits)
        with Cons.prems(3) Suc obtain op rest where q: "ops_queue (dispatchQueue (active s)) = op # rest"
          by (cases "ops_queue (dispatchQueue (active s))") (auto simp: pending_def in_flight_def)
        with e 2 r have r1: "runnable (active s1) = Running op" and p: "pending s1 = pending s"
          by (auto simp: take_op_def pending_def in_flight_def split: if_splits)
        from d 2 Cons.prems(2) have d1: "\<not> done (active s1)" by simp
        from Cons.prems(6) r r1 2 Suc have n1: "need (runnable (active s1)) n \<le> worker_steps tr"
          by simp
        from Cons.IH [OF inv1 d1 _ _ tr n1] p Cons.prems(3,4) 2 show ?thesis by simp
      next
        case 3
        with e w have "pending s = []"
          by (auto simp: inv_worker_def pending_def in_flight_def split: if_splits)
        with Cons.prems(3) Suc show ?thesis by simp
      next
        case (4 op)
        with e have e': "step s (Worker_exec op) = Some s1" by simp
        from Cons.prems(1) have ok: "calls_ok (pending s) (frames s)" by (simp add: inv_def)
        from step_exec [OF e' ok] have p: "pending s = op # pending s1"
          and r1: "runnable (active s1) = LoopHead" by simp_all
        from e' have r: "runnable (active s) = Running op" by (simp split: if_splits)
        from p Cons.prems(4) Suc have "op \<noteq> SetDone" by auto
        with d 4 Cons.prems(2) have d1: "\<not> done (active s1)" by simp
        from p Cons.prems(3) Suc have l1: "k \<le> length (pending s1)" by simp
        from p Cons.prems(4) Suc have t1: "SetDone \<notin> set (take k (pending s1))" by simp
        from Cons.prems(6) r 4 Suc have "3 * k \<le> worker_steps tr" by simp
        with r1 need_le [of LoopHead k] have n1: "need (runnable (active s1)) k \<le> worker_steps tr"
          by simp
        from Cons.IH [OF inv1 d1 l1 t1 tr n1] 4 Suc show ?thesis by simp
      qed
    qed
  qed
qed

lemma worker_enabled:
  assumes "inv s" "\<not> done (active s)" "pending s \<noteq> []"
  shows "\<exists>e. is_worker e \<and> step s e \<noteq> None"
proof (cases "runnable (active s)")
  case LoopHead
  then have "is_worker Worker_test \<and> step s Worker_test \<noteq> None" by simp
  then show ?thesis ..
next
  case InTake
  with assms(1,3) have "\<not> empty_waiting (dispatchQueue (active s))"
    by (auto simp: inv_def inv_worker_def pending_def in_flight_def)
  with InTake have "is_worker Worker_take \<and> step s Worker_take \<noteq> None"
    by (simp add: take_op_def split: list.splits)
  then show ?thesis ..
next
  case (Running op)
  then have "is_worker (Worker_exec op) \<and> step s (Worker_exec op) \<noteq> None"
    by (simp split: sum.splits)
  then show ?thesis ..
next
  case Exited
  with assms(1,2) show ?thesis by (simp add: inv_def inv_worker_def)
next
  case (Crashed f)
  with assms(1) show ?thesis by (simp add: inv_def alive_def)
qed

lemma step_exited:
  "step s e = Some s' \<Longrightarrow> runnable (active s) = Exited \<Longrightarrow> runnable (active s') = Exited"
  by (cases e) (auto simp: step_defs split: if_splits frame.splits bool.splits)

lemma step_done_worker:
  "step s e = Some s' \<Longrightarrow> done (active s) \<Longrightarrow> runnable (active s) = LoopHead \<Longrightarrow>
   runnable (active s') = (if is_worker e then Exited else LoopHead)"
  by (cases e) (auto simp: step_defs split: if_splits frame.splits bool.splits)

lemma stays_exited:
  "run_trace s tr = Some s' \<Longrightarrow> runnable (active s) = Exited \<Longrightarrow> runnable (active s') = Exited"
proof (induction tr arbitrary: s)
  case Nil
  then show ?case by simp
next
  case (Cons e tr)
  then obtain s1 where e: "step s e = Some s1" and tr: "run_trace s1 tr = Some s'"
    by (auto split: option.splits)
  from Cons.IH [OF tr step_exited [OF e Cons.prems(2)]] show ?case .
qed

lemma exits_once_done:
  "run_trace s tr = Some s' \<Longrightarrow> done (active s) \<Longrightarrow> runnable (active s) = LoopHead \<Longrightarrow>
   1 \<le> worker_steps tr \<Longrightarrow> runnable (active s') = Exited"
proof (induction tr arbitrary: s)
  case Nil
  then show ?case by simp
next
  case (Cons e tr)
  then obtain s1 where e: "step s e = Some s1" and tr: "run_trace s1 tr = Some s'"
    by (auto split: option.splits)
  note r = step_done_worker [OF e Cons.prems(2,3)]
  show ?case
  proof (cases "is_worker e")
    case True
    with r stays_exited [OF tr] show ?thesis by simp
  next
    case False
    from step_done [OF e] Cons.prems(2) have "done (active s1)" by simp
    with Cons.IH [OF tr] r False Cons.prems(4) show ?thesis by simp
  qed
qed

lemma exits:
  assumes "inv s" "\<not> done (active s)" "pending s = pre @ SetDone # post" "SetDone \<notin> set pre"
    "run_trace s tr = Some s'"
    "need (runnable (active s)) (Suc (length pre)) + 1 \<le> worker_steps tr"
  shows "runnable (active s') = Exited"
  using assms
proof (induction tr arbitrary: s pre post)
  case Nil
  from Nil.prems(1,2) have "runnable (active s) \<noteq> Exited" "\<forall>f. runnable (active s) \<noteq> Crashed f"
    by (auto simp: inv_def inv_worker_def alive_def)
  with Nil.prems(6) show ?case by simp
next
  case (Cons e tr)
  note prems = Cons.prems and IH = Cons.IH
  from prems obtain s1 where e: "step s e = Some s1" and tr: "run_trace s1 tr = Some s'"
    by (auto split: option.splits)
  note inv1 = inv_step [OF prems(1) e]
  note d = step_done [OF e]
  from prems(1,2) have w: "inv_worker s" by (simp add: inv_def)
  show ?case
  proof (cases "is_worker e")
    case False
    from step_caller [OF e False] have r: "runnable (active s1) = runnable (active s)"
      and p: "pending s1 = pre @ SetDone # (post @ put_of e)"
      using prems(3) by simp_all
    from False have "e \<noteq> Worker_exec SetDone" by auto
    with d prems(2) have d1: "\<not> done (active s1)" by simp
    from prems(6) False r
    have n1: "need (runnable (active s1)) (Suc (length pre)) + 1 \<le> worker_steps tr"
      by simp
    from IH [OF inv1 d1 p prems(4) tr n1] show ?thesis .
  next
    case True
    then consider "e = Worker_test" | "e = Worker_take" | "e = Spurious_wake"
      | op where "e = Worker_exec op"
      by (cases e) auto
    then show ?thesis
    proof cases
      case 1
      with e prems(2) have r: "runnable (active s) = LoopHead" "runnable (active s1) = InTake"
        and p: "pending s1 = pending s"
        by (auto simp: set_runnable_def pending_def in_flight_def split: if_splits)
      from d 1 prems(2) have d1: "\<not> done (active s1)" by simp
      from prems(6) r 1
      have n1: "need (runnable (active s1)) (Suc (length pre)) + 1 \<le> worker_steps tr"
        by simp
      from p prems(3) have p1: "pending s1 = pre @ SetDone # post" by simp
      from IH [OF inv1 d1 p1 prems(4) tr n1] show ?thesis .
    next
      case 2
      with e have r: "runnable (active s) = InTake" by (auto split: if_splits)
      with prems(3) obtain op rest where q: "ops_queue (dispatchQueue (active s)) = op # rest"
        by (cases "ops_queue (dispatchQueue (active s))") (auto simp: pending_def in_flight_def)
      with e 2 r have r1: "runnable (active s1) = Running op" and p: "pending s1 = pending s"
        by (auto simp: take_op_def pending_def in_flight_def split: if_splits)
      from d 2 prems(2) have d1: "\<not> done (active s1)" by simp
      from prems(6) r r1 2
      have n1: "need (runnable (active s1)) (Suc (length pre)) + 1 \<le> worker_steps tr"
        by simp
      from p prems(3) have p1: "pending s1 = pre @ SetDone # post" by simp
      from IH [OF inv1 d1 p1 prems(4) tr n1] show ?thesis .
    next
      case 3
      with e w have "pending s = []"
        by (auto simp: inv_worker_def pending_def in_flight_def split: if_splits)
      with prems(3) show ?thesis by simp
    next
      case (4 op)
      with e have e': "step s (Worker_exec op) = Some s1" by simp
      from prems(1) have ok: "calls_ok (pending s) (frames s)" by (simp add: inv_def)
      from step_exec [OF e' ok] have p: "pending s = op # pending s1"
        and r1: "runnable (active s1) = LoopHead" by simp_all
      from e' have r: "runnable (active s) = Running op" by (simp split: if_splits)
      show ?thesis
      proof (cases pre)
        case Nil
        with p prems(3) have "op = SetDone" by simp
        with d 4 have d1: "done (active s1)" by simp
        from prems(6) r 4 Nil have "1 \<le> worker_steps tr" by simp
        from exits_once_done [OF tr d1 r1 this] show ?thesis .
      next
        case (Cons x pre')
        note pre = this
        with p prems(3,4) have op: "op \<noteq> SetDone" and p1: "pending s1 = pre' @ SetDone # post"
          and n: "SetDone \<notin> set pre'"
          by auto
        from op d 4 prems(2) have d1: "\<not> done (active s1)" by simp
        from prems(6) r r1 4 pre
        have n1: "need (runnable (active s1)) (Suc (length pre')) + 1 \<le> worker_steps tr"
          by simp
        from IH [OF inv1 d1 p1 n tr n1] show ?thesis .
      qed
    qed
  qed
qed

section \<open>Blocking calls\<close>

lemma step_waiting_doSomething:
  "step s e = Some s' \<Longrightarrow> frames s t = DoSomething_frame None \<Longrightarrow>
   (if e = Worker_exec (DoSomethingOp t) then frames s' t = DoSomething_frame (Some 999)
    else frames s' t = DoSomething_frame None)"
proof (cases e)
  case (Worker_exec op)
  assume "step s e = Some s'" "frames s t = DoSomething_frame None"
  with Worker_exec show ?thesis
    by (cases op)
      (auto simp: set_runnable_def set_frame_def
        split: if_splits frame.splits option.splits bool.splits)
qed (auto simp: step_defs split: if_splits frame.splits bool.splits list.splits)

lemma step_ready_doSomething:
  "step s e = Some s' \<Longrightarrow> frames s t = DoSomething_frame (Some v) \<Longrightarrow>
   e = Ret_doSomething t v \<or> frames s' t = DoSomething_frame (Some v)"
proof (cases e)
  case (Worker_exec op)
  assume "step s e = Some s'" "frames s t = DoSomething_frame (Some v)"
  with Worker_exec show ?thesis
    by (cases op)
      (auto simp: set_runnable_def set_frame_def
        split: if_splits frame.splits option.splits bool.splits)
qed (auto simp: step_defs split: if_splits frame.splits bool.splits list.splits)

lemma ready_stays:
  "run_trace s tr = Some s' \<Longrightarrow> frames s t = DoSomething_frame (Some v) \<Longrightarrow>
   Ret_doSomething t v \<in> set tr \<or> frames s' t = DoSomething_frame (Some v)"
proof (induction tr arbitrary: s)
  case Nil
  then show ?case by simp
next
  case (Cons e tr)
  then obtain s1 where e: "step s e = Some s1" and tr: "run_trace s1 tr = Some s'"
    by (auto split: option.splits)
  from step_ready_doSomething [OF e Cons.prems(2)] Cons.IH [OF tr] show ?case
    by auto
qed

lemma served:
  "run_trace s tr = Some s' \<Longrightarrow> frames s t = DoSomething_frame None \<Longrightarrow>
   DoSomethingOp t \<in> set (execs_of tr) \<Longrightarrow>
   Ret_doSomething t 999 \<in> set tr \<or> frames s' t = DoSomething_frame (Some 999)"
proof (induction tr arbitrary: s)
  case Nil
  then show ?case by simp
next
  case (Cons e tr)
  then obtain s1 where e: "step s e = Some s1" and tr: "run_trace s1 tr = Some s'"
    by (auto split: option.splits)
  note f = step_waiting_doSomething [OF e Cons.prems(2)]
  show ?case
  proof (cases "e = Worker_exec (DoSomethingOp t)")
    case True
    with f ready_stays [OF tr] show ?thesis by auto
  next
    case False
    with Cons.prems(3) have "DoSomethingOp t \<in> set (execs_of tr)"
      by (cases e) auto
    with f False Cons.IH [OF tr] show ?thesis by auto
  qed
qed

lemma returned_999:
  assumes "run_trace init tr = Some s" "Ret_doSomething t v \<in> set tr"
  shows "v = 999"
proof -
  from assms(2) obtain tr1 tr2 where "tr = tr1 @ Ret_doSomething t v # tr2"
    by (auto dest: split_list)
  with assms(1) obtain s1 s2 where s1: "run_trace init tr1 = Some s1"
    and r: "step s1 (Ret_doSomething t v) = Some s2"
    by (auto dest: run_trace_split)
  from r have f: "frames s1 t = DoSomething_frame (Some v)" by (simp split: if_splits)
  from inv_reachable [OF s1] have "frame_ok t (mem s1) (frames s1 t)"
    by (simp add: inv_def frames_ok_def)
  with f show ?thesis by simp
qed

lemma step_signalled:
  assumes st: "step s e = Some s'" and ok: "calls_ok (pending s) (frames s)"
    and f: "frames s' t = DoSomethingWithReferenceParams_frame a b True"
  shows "frames s t = DoSomethingWithReferenceParams_frame a b True \<or>
    e = Worker_exec (DoSomethingWithReferenceParamsOp a b t)"
proof (cases e)
  case (Worker_exec op)
  with st have "step s (Worker_exec op) = Some s'" by simp
  from step_exec [OF this ok] f Worker_exec show ?thesis
    by (cases op) (auto split: if_splits)
qed (use st f in \<open>auto simp: step_defs split: if_splits frame.splits bool.splits list.splits\<close>)

lemma signalled_executed:
  "run_trace init tr = Some s \<Longrightarrow>
   frames s t = DoSomethingWithReferenceParams_frame a b True \<Longrightarrow>
   DoSomethingWithReferenceParamsOp a b t \<in> set (execs_of tr)"
proof (induction tr arbitrary: s rule: rev_induct)
  case Nil
  then show ?case by (auto simp: init_def)
next
  case (snoc e tr)
  then obtain s1 where tr: "run_trace init tr = Some s1" and e: "step s1 e = Some s"
    by (auto simp: run_trace_snoc)
  from inv_reachable [OF tr] have ok: "calls_ok (pending s1) (frames s1)"
    by (simp add: inv_def)
  from step_signalled [OF e ok snoc.prems(2)] snoc.IH [OF tr] show ?case
    by auto
qed

lemma execs_of_mem: "op \<in> set (execs_of tr) \<longleftrightarrow> Worker_exec op \<in> set tr"
proof (induction tr)
  case Nil
  then show ?case by simp
next
  case (Cons e tr)
  then show ?case by (cases e) auto
qed

lemma exec_before_ready:
  "run_trace s tr = Some s' \<Longrightarrow> frames s t = DoSomething_frame None \<Longrightarrow>
   frames s' t \<noteq> DoSomething_frame None \<Longrightarrow> Worker_exec (DoSomethingOp t) \<in> set tr"
proof (induction tr arbitrary: s)
  case Nil
  then show ?case by simp
next
  case (Cons e tr)
  then obtain s1 where e: "step s e = Some s1" and tr: "run_trace s1 tr = Some s'"
    by (auto split: option.splits)
  note f = step_waiting_doSomething [OF e Cons.prems(2)]
  show ?case
  proof (cases "e = Worker_exec (DoSomethingOp t)")
    case True
    then show ?thesis by simp
  next
    case False
    with f have "frames s1 t = DoSomething_frame None" by simp
    from Cons.IH [OF tr this Cons.prems(3)] show ?thesis by simp
  qed
qed

lemma step_value_set:
  assumes st: "step s e = Some s'" and ok: "calls_ok (pending s) (frames s)"
    and f: "frames s' t = DoSomething_frame (Some v)"
  shows "frames s t = DoSomething_frame (Some v) \<or> e = Worker_exec (DoSomethingOp t)"
proof (cases e)
  case (Worker_exec op)
  with st have "step s (Worker_exec op) = Some s'" by simp
  from step_exec [OF this ok] f Worker_exec show ?thesis
    by (cases op) (auto split: if_splits)
qed (use st f in \<open>auto simp: step_defs split: if_splits frame.splits bool.splits list.splits\<close>)

lemma value_set_executed:
  "run_trace init tr = Some s \<Longrightarrow> frames s t = DoSomething_frame (Some v) \<Longrightarrow>
   DoSomethingOp t \<in> set (execs_of tr)"
proof (induction tr arbitrary: s rule: rev_induct)
  case Nil
  then show ?case by (auto simp: init_def)
next
  case (snoc e tr)
  then obtain s1 where tr: "run_trace init tr = Some s1" and e: "step s1 e = Some s"
    by (auto simp: run_trace_snoc)
  from inv_reachable [OF tr] have ok: "calls_ok (pending s1) (frames s1)"
    by (simp add: inv_def)
  from step_value_set [OF e ok snoc.prems(2)] snoc.IH [OF tr] show ?case
    by auto
qed

lemma returned_executed:
  assumes "run_trace init tr = Some s" "Ret_doSomething t v \<in> set tr"
  shows "DoSomethingOp t \<in> set (execs_of tr)"
proof -
  from assms(2) obtain tr1 tr2 where tr: "tr = tr1 @ Ret_doSomething t v # tr2"
    by (auto dest: split_list)
  with assms(1) obtain s1 s2 where s1: "run_trace init tr1 = Some s1"
    and r: "step s1 (Ret_doSomething t v) = Some s2"
    by (auto dest: run_trace_split)
  from r have "frames s1 t = DoSomething_frame (Some v)" by (simp split: if_splits)
  from value_set_executed [OF s1 this] tr show ?thesis by simp
qed

lemma executed_between_call_and_return:
  assumes "run_trace s0 (tr0 @ Call_doSomething t # tr1 @ Ret_doSomething t v # tr2) = Some s"
  shows "Worker_exec (DoSomethingOp t) \<in> set tr1"
proof -
  from run_trace_split [OF assms] obtain s1 s2
    where c: "step s1 (Call_doSomething t) = Some s2"
      and rest: "run_trace s2 (tr1 @ Ret_doSomething t v # tr2) = Some s"
    by auto
  from run_trace_split [OF rest] obtain s3 s4
    where tr1: "run_trace s2 tr1 = Some s3" and r: "step s3 (Ret_doSomething t v) = Some s4"
    by auto
  from c have "frames s2 t = DoSomething_frame None" by (auto split: if_splits)
  moreover from r have "frames s3 t \<noteq> DoSomething_frame None" by (auto split: if_splits)
  ultimately show ?thesis using exec_before_ready [OF tr1] by simp
qed

lemma worker_moves:
  assumes "inv s" "\<not> done (active s)" "pending s \<noteq> []"
  shows "(\<exists>e. is_worker e \<and> e \<noteq> Spurious_wake \<and> step s e \<noteq> None) \<and>
    step s Spurious_wake = None"
proof -
  from assms(1,3)
  have nw: "\<not> (runnable (active s) = InTake \<and> empty_waiting (dispatchQueue (active s)))"
    by (auto simp: inv_def inv_worker_def pending_def in_flight_def)
  then have sp: "step s Spurious_wake = None" by simp
  have "\<exists>e. is_worker e \<and> e \<noteq> Spurious_wake \<and> step s e \<noteq> None"
  proof (cases "runnable (active s)")
    case LoopHead
    then have "is_worker Worker_test \<and> Worker_test \<noteq> Spurious_wake \<and>
        step s Worker_test \<noteq> None"
      by simp
    then show ?thesis ..
  next
    case InTake
    with nw have "is_worker Worker_take \<and> Worker_take \<noteq> Spurious_wake \<and>
        step s Worker_take \<noteq> None"
      by (simp add: take_op_def split: list.splits)
    then show ?thesis ..
  next
    case (Running op)
    then have "is_worker (Worker_exec op) \<and> Worker_exec op \<noteq> Spurious_wake \<and>
        step s (Worker_exec op) \<noteq> None"
      by (simp split: sum.splits)
    then show ?thesis ..
  next
    case Exited
    with assms(1,2) show ?thesis by (simp add: inv_def inv_worker_def)
  next
    case (Crashed f)
    with assms(1) show ?thesis by (simp add: inv_def alive_def)
  qed
  with sp show ?thesis by simp
qed

section \<open>The claims\<close>

lemmas run_defs = init_def BecomeActiveObject_new_def step_defs

lemma main_trace_runs: "run_trace init main_trace \<noteq> None"
  by (simp add: main_trace_def run_defs)

text \<open>
  C1. FIFO. On the queue: after any puts, any number of takes that the queue can serve
  yield the closures in the order they were put, behind what was queued before. On the
  running object: in every reachable state the closures put so far are, in order, the
  closures the worker has run, then the one it is running, then the queue; so the worker
  runs them in the order their puts completed.
\<close>

theorem fifo_order:
  "(n \<le> length (ops_queue q @ ops) \<longrightarrow>
      take_n n (put_all ops q) =
        Some (take n (ops_queue q @ ops),
              (put_all ops q)\<lparr>ops_queue := drop n (ops_queue q @ ops)\<rparr>)) \<and>
   (run_trace init tr = Some s \<longrightarrow> puts_of tr = execs_of tr @ pending s)"
proof (intro conjI impI)
  assume "n \<le> length (ops_queue q @ ops)"
  then have "n \<le> length (ops_queue (put_all ops q))"
    by (simp add: ops_queue_put_all)
  from take_n_prefix [OF this]
  show "take_n n (put_all ops q) =
    Some (take n (ops_queue q @ ops), (put_all ops q)\<lparr>ops_queue := drop n (ops_queue q @ ops)\<rparr>)"
    by (simp add: ops_queue_put_all)
next
  assume "run_trace init tr = Some s"
  from run_trace_pending [OF this] show "puts_of tr = execs_of tr @ pending s"
    by (simp add: pending_def in_flight_def init_def BecomeActiveObject_new_def)
qed

theorem fifo_order_witness:
  "take_n 2 (put_all [DoSomethingElseOp, SetDone]
      \<lparr>ops_queue = [DoSomethingOp 0], empty_waiting = True\<rparr>) =
     Some ([DoSomethingOp 0, DoSomethingElseOp], \<lparr>ops_queue = [SetDone], empty_waiting = False\<rparr>) \<and>
   run_trace init main_trace \<noteq> None \<and>
   puts_of main_trace =
     [DoSomethingOp 0, DoSomethingElseOp, DoSomethingWithParamsOp 5 7,
      DoSomethingWithReferenceParamsOp (Local 0 0) (Local 0 1) 0, SetDone] \<and>
   execs_of main_trace = puts_of main_trace"
proof -
  obtain s where s: "run_trace init main_trace = Some s"
    using main_trace_runs by auto
  then have "pending s = []"
    by (auto simp: main_trace_def run_defs pending_def in_flight_def)
  with fifo_order [of 2 "\<lparr>ops_queue = [DoSomethingOp 0], empty_waiting = True\<rparr>"
      "[DoSomethingElseOp, SetDone]" main_trace s] s
  show ?thesis
    by (simp add: put_def) (simp add: main_trace_def)
qed

text \<open>
  C2. The destructor puts the sentinel, whose only effect is to set \<^verbatim>\<open>done\<close>, and returns
  from \<^verbatim>\<open>join\<close> only when the worker has left \<^verbatim>\<open>run\<close>. Whenever a destructor call
  returns, the closures put so far split at the first sentinel into \<open>pre\<close>, the sentinel
  and \<open>post\<close>, and what the worker has run is exactly \<open>pre\<close>, in order, and then the
  sentinel: every closure put before shutdown was requested has been run, none was
  dropped, and the worker left its loop only after the sentinel. And the destructor does
  return: once a sentinel has been put, after any continuation in which the worker has
  taken three steps for each pending closure and one more, the worker has left \<^verbatim>\<open>run\<close>
  and a thread blocked in \<^verbatim>\<open>join\<close> can return. (A C++ object is destroyed once; the
  statement is about the first sentinel, so it holds for any number of calls.)
\<close>

theorem shutdown_drains_queue:
  "put_of (Call_destructor t) = [SetDone] \<and>
   call_op SetDone s0 = Inr (s0\<lparr>active := (active s0)\<lparr>done := True\<rparr>\<rparr>) \<and>
   (run_trace init tr = Some s \<and> step s (Ret_destructor t) = Some s' \<longrightarrow>
      (\<exists>pre post. puts_of tr = pre @ SetDone # post \<and> SetDone \<notin> set pre \<and>
         execs_of tr = pre @ [SetDone])) \<and>
   (run_trace init tr = Some s \<and> SetDone \<in> set (puts_of tr) \<and>
    run_trace s tr' = Some s'' \<and> 3 * length (pending s) + 1 \<le> worker_steps tr' \<longrightarrow>
      runnable (active s'') = Exited \<and>
      (frames s'' t = Destructor_frame \<longrightarrow> step s'' (Ret_destructor t) \<noteq> None))"
proof (intro conjI impI)
  assume a: "run_trace init tr = Some s \<and> step s (Ret_destructor t) = Some s'"
  then have ex: "runnable (active s) = Exited"
    by (auto split: if_splits)
  from a run_trace_pending [of init tr s] have p: "puts_of tr = execs_of tr @ pending s"
    by (simp add: pending_def in_flight_def init_def BecomeActiveObject_new_def)
  from a inv_reachable [of tr s] ex have "done (active s)"
    by (simp add: inv_def inv_worker_def)
  with a done_execs [of tr s] obtain xs where "execs_of tr = xs @ [SetDone]" "SetDone \<notin> set xs"
    by auto
  with p show "\<exists>pre post. puts_of tr = pre @ SetDone # post \<and> SetDone \<notin> set pre \<and>
         execs_of tr = pre @ [SetDone]"
    by auto
next
  assume b: "run_trace init tr = Some s \<and> SetDone \<in> set (puts_of tr) \<and>
    run_trace s tr' = Some s'' \<and> 3 * length (pending s) + 1 \<le> worker_steps tr'"
  then have r: "run_trace init tr = Some s" and r': "run_trace s tr' = Some s''"
    and put: "SetDone \<in> set (puts_of tr)"
    and n: "3 * length (pending s) + 1 \<le> worker_steps tr'"
    by simp_all
  note i = inv_reachable [OF r]
  from run_trace_pending [OF r] have p: "puts_of tr = execs_of tr @ pending s"
    by (simp add: pending_def in_flight_def init_def BecomeActiveObject_new_def)
  show ex: "runnable (active s'') = Exited"
  proof (cases "done (active s)")
    case True
    with i consider "runnable (active s) = LoopHead" | "runnable (active s) = Exited"
      by (auto simp: inv_def inv_worker_def)
    then show ?thesis
    proof cases
      case 1
      from n have "1 \<le> worker_steps tr'" by simp
      from exits_once_done [OF r' True 1 this] show ?thesis .
    next
      case 2
      from stays_exited [OF r' 2] show ?thesis .
    qed
  next
    case False
    with done_execs [OF r] have "SetDone \<notin> set (execs_of tr)" by simp
    with put p have "SetDone \<in> set (pending s)" by simp
    then obtain pre post where pp: "pending s = pre @ SetDone # post" and np: "SetDone \<notin> set pre"
      by (auto dest: split_list_first)
    from need_le [of "runnable (active s)" "Suc (length pre)"] pp n
    have "need (runnable (active s)) (Suc (length pre)) + 1 \<le> worker_steps tr'"
      by simp
    from exits [OF i False pp np r' this] show ?thesis .
  qed
  assume "frames s'' t = Destructor_frame"
  with ex show "step s'' (Ret_destructor t) \<noteq> None" by simp
qed simp_all

theorem shutdown_drains_queue_witness:
  "run_trace init main_trace \<noteq> None \<and>
   main_trace = butlast main_trace @ [Ret_destructor 0] \<and>
   (\<exists>pre post. puts_of (butlast main_trace) = pre @ SetDone # post \<and> SetDone \<notin> set pre \<and>
         execs_of (butlast main_trace) = pre @ [SetDone]) \<and>
   execs_of (butlast main_trace) =
     [DoSomethingOp 0, DoSomethingElseOp, DoSomethingWithParamsOp 5 7,
      DoSomethingWithReferenceParamsOp (Local 0 0) (Local 0 1) 0, SetDone] \<and>
   SetDone \<in> set (puts_of request_trace) \<and>
   pending (the (run_trace init request_trace)) = [DoSomethingElseOp, SetDone] \<and>
   worker_steps drain_trace = 7 \<and>
   runnable (active (the (run_trace init (request_trace @ drain_trace)))) = Exited \<and>
   run_trace init (request_trace @ drain_trace @ [Ret_destructor 0]) \<noteq> None"
proof -
  obtain s' where s': "run_trace init main_trace = Some s'"
    using main_trace_runs by auto
  have m: "main_trace = butlast main_trace @ [Ret_destructor 0]"
    by (simp add: main_trace_def)
  with s' have "run_trace init (butlast main_trace @ [Ret_destructor 0]) = Some s'"
    by simp
  then obtain s where s: "run_trace init (butlast main_trace) = Some s"
    and r: "step s (Ret_destructor 0) = Some s'"
    unfolding run_trace_snoc by auto
  obtain u where u: "run_trace init request_trace = Some u"
    by (simp add: request_trace_def run_defs)
  then have pu: "pending u = [DoSomethingElseOp, SetDone]" and fu: "frames u 0 = Destructor_frame"
    by (auto simp: request_trace_def run_defs pending_def in_flight_def)
  obtain u' where u': "run_trace u drain_trace = Some u'"
    using u by (auto simp: request_trace_def drain_trace_def run_defs)
  from u u' have fu': "frames u' 0 = Destructor_frame"
    by (auto simp: request_trace_def drain_trace_def run_defs)
  have c: "SetDone \<in> set (puts_of request_trace)" "worker_steps drain_trace = 7"
    by (simp_all add: request_trace_def drain_trace_def)
  from shutdown_drains_queue [of 0 u request_trace u _ drain_trace u'] u u' pu fu' c
  have e: "runnable (active u') = Exited" "step u' (Ret_destructor 0) \<noteq> None"
    by simp_all
  from u u' e fu' have f: "run_trace init (request_trace @ drain_trace @ [Ret_destructor 0]) \<noteq> None"
    "run_trace init (request_trace @ drain_trace) = Some u'"
    by (simp_all add: run_trace_append)
  from shutdown_drains_queue [of 0 s "butlast main_trace" s s'] s' m s r u pu c e f
  show ?thesis
    by (simp add: main_trace_def)
qed

text \<open>
  C3. \<^verbatim>\<open>doSomething\<close> returns 999, the value its closure writes on the worker. The call
  of a free caller puts the closure and leaves the promise empty; while the promise is
  empty the caller cannot return and the closure is pending; the closure, run then, writes
  999 into that promise. Every return of \<^verbatim>\<open>doSomething\<close> in a run returns 999, the worker
  ran the closure of that thread before it, and between any call and a later return of the
  same thread the worker ran that closure. The worker never faults. Progress: while a
  caller is blocked in \<^verbatim>\<open>doSomething\<close> and no shutdown has been requested, one of the
  worker's own steps (test, take or call, not a spurious wake-up, which cannot happen
  then) is enabled; and after any continuation of the run in which the worker has taken
  three steps for each pending closure, whatever the other threads did in between, the
  worker has run the closure of the call and the caller has returned 999 or its promise
  holds 999.
\<close>

theorem doSomething_returns_999:
  "run_trace init tr = Some s \<longrightarrow>
     (\<forall>f. runnable (active s) \<noteq> Crashed f) \<and>
     (Ret_doSomething t v \<in> set tr \<longrightarrow> v = 999 \<and> DoSomethingOp t \<in> set (execs_of tr)) \<and>
     (tr = tr0 @ Call_doSomething t # tr1 @ Ret_doSomething t v # tr2 \<longrightarrow>
        Worker_exec (DoSomethingOp t) \<in> set tr1) \<and>
     (frames s t = Idle \<longrightarrow>
        (\<exists>s1. step s (Call_doSomething t) = Some s1 \<and>
           frames s1 t = DoSomething_frame None \<and>
           pending s1 = pending s @ [DoSomethingOp t])) \<and>
     (frames s t = DoSomething_frame (Some v) \<longrightarrow>
        v = 999 \<and> step s (Ret_doSomething t v) \<noteq> None \<and>
        DoSomethingOp t \<in> set (execs_of tr)) \<and>
     (frames s t = DoSomething_frame None \<longrightarrow>
        step s (Ret_doSomething t v) = None \<and>
        DoSomethingOp t \<in> set (pending s) \<and>
        call_op (DoSomethingOp t) s = Inr (set_frame t (DoSomething_frame (Some 999)) s)) \<and>
     (frames s t = DoSomething_frame None \<and> SetDone \<notin> set (puts_of tr) \<longrightarrow>
        (\<exists>e. is_worker e \<and> step s e \<noteq> None) \<and>
        (\<exists>e. is_worker e \<and> e \<noteq> Spurious_wake \<and> step s e \<noteq> None) \<and>
        step s Spurious_wake = None \<and>
        (run_trace s tr' = Some s' \<and> 3 * length (pending s) \<le> worker_steps tr' \<longrightarrow>
           Worker_exec (DoSomethingOp t) \<in> set tr' \<and>
           (Ret_doSomething t 999 \<in> set tr' \<or> frames s' t = DoSomething_frame (Some 999))))"
proof (intro impI conjI allI)
  assume r: "run_trace init tr = Some s"
  note i = inv_reachable [OF r]
  {
    fix f
    from i show "runnable (active s) \<noteq> Crashed f" by (simp add: inv_def alive_def)
  next
    assume a: "Ret_doSomething t v \<in> set tr"
    from r a show "v = 999" by (rule returned_999)
    from r a show "DoSomethingOp t \<in> set (execs_of tr)" by (rule returned_executed)
  next
    assume "tr = tr0 @ Call_doSomething t # tr1 @ Ret_doSomething t v # tr2"
    with r have "run_trace init (tr0 @ Call_doSomething t # tr1 @ Ret_doSomething t v # tr2) = Some s"
      by simp
    then show "Worker_exec (DoSomethingOp t) \<in> set tr1"
      by (rule executed_between_call_and_return)
  next
    assume "frames s t = Idle"
    then show "\<exists>s1. step s (Call_doSomething t) = Some s1 \<and>
           frames s1 t = DoSomething_frame None \<and>
           pending s1 = pending s @ [DoSomethingOp t]"
      by simp
  next
    assume f: "frames s t = DoSomething_frame (Some v)"
    from i have "frame_ok t (mem s) (frames s t)" by (simp add: inv_def frames_ok_def)
    with f show "v = 999" by simp
    from f show "step s (Ret_doSomething t v) \<noteq> None" by simp
    from value_set_executed [OF r f] show "DoSomethingOp t \<in> set (execs_of tr)" .
  next
    assume f: "frames s t = DoSomething_frame None"
    then show "step s (Ret_doSomething t v) = None" by simp
    from i f show "DoSomethingOp t \<in> set (pending s)"
      by (auto simp: inv_def intro: calls_ok_waiting)
    from f show "call_op (DoSomethingOp t) s = Inr (set_frame t (DoSomething_frame (Some 999)) s)"
      by simp
  next
    assume a: "frames s t = DoSomething_frame None \<and> SetDone \<notin> set (puts_of tr)"
    from run_trace_pending [OF r] have p: "puts_of tr = execs_of tr @ pending s"
      by (simp add: pending_def in_flight_def init_def BecomeActiveObject_new_def)
    with a have nd: "SetDone \<notin> set (execs_of tr)" and np: "SetDone \<notin> set (pending s)"
      by auto
    from done_execs [OF r] nd have d: "\<not> done (active s)"
      by (auto split: if_splits)
    from i a have mem: "DoSomethingOp t \<in> set (pending s)"
      by (auto simp: inv_def intro: calls_ok_waiting)
    then have ne: "pending s \<noteq> []" by auto
    from worker_enabled [OF i d ne] show "\<exists>e. is_worker e \<and> step s e \<noteq> None" .
    from worker_moves [OF i d ne]
    show "\<exists>e. is_worker e \<and> e \<noteq> Spurious_wake \<and> step s e \<noteq> None"
      and "step s Spurious_wake = None"
      by simp_all
    assume b: "run_trace s tr' = Some s' \<and> 3 * length (pending s) \<le> worker_steps tr'"
    from np have np': "SetDone \<notin> set (take (length (pending s)) (pending s))" by simp
    from b need_le [of "runnable (active s)" "length (pending s)"]
    have n: "need (runnable (active s)) (length (pending s)) \<le> worker_steps tr'" by simp
    from b have r': "run_trace s tr' = Some s'" by simp
    from progress [OF i d _ np' r' n] have len: "length (pending s) \<le> length (execs_of tr')"
      by simp
    from run_trace_pending [OF r'] have "pending s @ puts_of tr' = execs_of tr' @ pending s'" .
    then have "take (length (pending s)) (execs_of tr' @ pending s') = pending s"
      by (metis append_eq_conv_conj)
    with len have "pending s = take (length (pending s)) (execs_of tr')" by simp
    with mem have ex: "DoSomethingOp t \<in> set (execs_of tr')"
      by (metis in_set_takeD)
    then show "Worker_exec (DoSomethingOp t) \<in> set tr'" by (simp add: execs_of_mem)
    from ex served [OF r'] a
    show "Ret_doSomething t 999 \<in> set tr' \<or> frames s' t = DoSomething_frame (Some 999)"
      by simp
  }
qed

theorem doSomething_returns_999_witness:
  "frames (the (run_trace init call_trace)) 0 = DoSomething_frame (Some 999) \<and>
   execs_of call_trace = [DoSomethingOp 0] \<and>
   run_trace init (call_trace @ [Ret_doSomething 0 999]) \<noteq> None \<and>
   second_call_trace =
     [] @ Call_doSomething 0 # [Worker_test, Worker_take, Worker_exec (DoSomethingOp 0)] @
       Ret_doSomething 0 999 # [Call_doSomethingElse 1, Call_doSomething 0] \<and>
   Ret_doSomething 0 999 \<in> set second_call_trace \<and>
   SetDone \<notin> set (puts_of second_call_trace) \<and>
   frames (the (run_trace init second_call_trace)) 0 = DoSomething_frame None \<and>
   frames (the (run_trace init second_call_trace)) 1 = Idle \<and>
   step (the (run_trace init second_call_trace)) (Call_doSomething 1) \<noteq> None \<and>
   pending (the (run_trace init second_call_trace)) = [DoSomethingElseOp, DoSomethingOp 0] \<and>
   worker_steps serve_trace = 6 \<and>
   step (the (run_trace init second_call_trace)) Worker_test \<noteq> None \<and>
   step (the (run_trace init second_call_trace)) Spurious_wake = None \<and>
   Worker_exec (DoSomethingOp 0) \<in> set serve_trace \<and>
   frames (the (run_trace init (second_call_trace @ serve_trace))) 0 =
     DoSomething_frame (Some 999)"
proof -
  obtain s1 where s1: "run_trace init call_trace = Some s1"
    by (simp add: call_trace_def run_defs)
  obtain s2 where s2: "run_trace init second_call_trace = Some s2"
    by (simp add: second_call_trace_def call_trace_def run_defs)
  obtain s3 where s3: "run_trace s2 serve_trace = Some s3"
    using s2 by (auto simp: second_call_trace_def call_trace_def serve_trace_def run_defs)
  from s2 s3 have s23: "run_trace init (second_call_trace @ serve_trace) = Some s3"
    by (simp add: run_trace_append)
  from s1 have f1: "frames s1 0 = DoSomething_frame (Some 999)"
    by (auto simp: call_trace_def run_defs)
  from s2 have f2: "frames s2 0 = DoSomething_frame None"
    and g2: "frames s2 1 = Idle"
    and p2: "pending s2 = [DoSomethingElseOp, DoSomethingOp 0]"
    and w2: "step s2 Worker_test \<noteq> None"
    by (auto simp: second_call_trace_def call_trace_def run_defs pending_def in_flight_def)
  have sp: "second_call_trace =
     [] @ Call_doSomething 0 # [Worker_test, Worker_take, Worker_exec (DoSomethingOp 0)] @
       Ret_doSomething 0 999 # [Call_doSomethingElse 1, Call_doSomething 0]"
    by (simp add: second_call_trace_def call_trace_def)
  have ret: "Ret_doSomething 0 999 \<in> set second_call_trace"
    and nos: "SetDone \<notin> set (puts_of second_call_trace)"
    and ws: "worker_steps serve_trace = 6"
    and ex1: "execs_of call_trace = [DoSomethingOp 0]"
    by (simp_all add: second_call_trace_def call_trace_def serve_trace_def)
  have nr: "Ret_doSomething 0 999 \<notin> set serve_trace"
    by (simp add: serve_trace_def)
  from doSomething_returns_999 [of call_trace s1 0 999] s1 f1
  have a: "run_trace init (call_trace @ [Ret_doSomething 0 999]) \<noteq> None"
    by (auto simp: run_trace_append)
  from doSomething_returns_999 [of second_call_trace s2 1] s2 g2
  have c: "step s2 (Call_doSomething 1) \<noteq> None"
    by auto
  from doSomething_returns_999 [of second_call_trace s2 0 999 "[]"
      "[Worker_test, Worker_take, Worker_exec (DoSomethingOp 0)]"
      "[Call_doSomethingElse 1, Call_doSomething 0]" serve_trace s3]
    s2 s3 f2 p2 ret nos ws nr sp
  have "frames s3 0 = DoSomething_frame (Some 999)"
    and "Worker_exec (DoSomethingOp 0) \<in> set serve_trace"
    and "step s2 Spurious_wake = None"
    by simp_all
  with a c s1 s2 s23 f1 f2 g2 p2 w2 ret nos ws ex1 sp show ?thesis by simp
qed

text \<open>
  C4, as amended. When \<^verbatim>\<open>doSomethingWithReferenceParams(a, b)\<close> returns, the worker has
  run the closure of that call (the call does not return before the signal), \<open>b\<close> holds
  5678, and \<open>a\<close> holds 1234 provided \<open>a\<close> and \<open>b\<close> are distinct variables. When both
  references denote one variable, the second assignment wins and it holds 5678.
\<close>

theorem reference_params_mutated:
  "run_trace init tr = Some s \<and>
   frames s t = DoSomethingWithReferenceParams_frame a b g \<and>
   step s (Ret_doSomethingWithReferenceParams t) = Some s' \<longrightarrow>
     mem s' b = 5678 \<and> (a \<noteq> b \<longrightarrow> mem s' a = 1234) \<and> (a = b \<longrightarrow> mem s' a = 5678) \<and>
     owner a = t \<and> owner b = t \<and>
     DoSomethingWithReferenceParamsOp a b t \<in> set (execs_of tr)"
proof
  assume h: "run_trace init tr = Some s \<and>
   frames s t = DoSomethingWithReferenceParams_frame a b g \<and>
   step s (Ret_doSomethingWithReferenceParams t) = Some s'"
  then have g: "g" and s': "s' = set_frame t Idle s"
    by (auto split: bool.splits)
  from h have r: "run_trace init tr = Some s" by simp
  from inv_reachable [OF r] have "frames_ok s" by (simp add: inv_def)
  then have "frame_ok t (mem s) (frames s t)" by (simp add: frames_ok_def)
  with h g s' have "mem s' b = 5678 \<and> (a \<noteq> b \<longrightarrow> mem s' a = 1234) \<and> owner a = t \<and> owner b = t"
    by simp
  moreover from h g signalled_executed [of tr s t a b]
  have "DoSomethingWithReferenceParamsOp a b t \<in> set (execs_of tr)"
    by simp
  ultimately show "mem s' b = 5678 \<and> (a \<noteq> b \<longrightarrow> mem s' a = 1234) \<and> (a = b \<longrightarrow> mem s' a = 5678) \<and>
     owner a = t \<and> owner b = t \<and>
     DoSomethingWithReferenceParamsOp a b t \<in> set (execs_of tr)"
    by auto
qed

theorem reference_params_mutated_witness:
  "run_trace init (refs_trace @ [Ret_doSomethingWithReferenceParams 0]) \<noteq> None \<and>
   mem (the (run_trace init (refs_trace @ [Ret_doSomethingWithReferenceParams 0]))) (Local 0 0) = 1234 \<and>
   mem (the (run_trace init (refs_trace @ [Ret_doSomethingWithReferenceParams 0]))) (Local 0 1) = 5678 \<and>
   run_trace init (alias_trace @ [Ret_doSomethingWithReferenceParams 0]) \<noteq> None \<and>
   mem (the (run_trace init (alias_trace @ [Ret_doSomethingWithReferenceParams 0]))) (Local 0 0) = 5678"
proof -
  obtain s where s: "run_trace init refs_trace = Some s"
    by (simp add: refs_trace_def run_defs)
  then have f: "frames s 0 =
      DoSomethingWithReferenceParams_frame (Local 0 0) (Local 0 1) True"
    by (auto simp: refs_trace_def run_defs)
  then obtain s' where s': "step s (Ret_doSomethingWithReferenceParams 0) = Some s'"
    by simp
  obtain u where u: "run_trace init alias_trace = Some u"
    by (simp add: alias_trace_def run_defs)
  then have fu: "frames u 0 =
      DoSomethingWithReferenceParams_frame (Local 0 0) (Local 0 0) True"
    by (auto simp: alias_trace_def run_defs)
  then obtain u' where u': "step u (Ret_doSomethingWithReferenceParams 0) = Some u'"
    by simp
  from reference_params_mutated [of refs_trace s 0 "Local 0 0" "Local 0 1" True s']
    reference_params_mutated [of alias_trace u 0 "Local 0 0" "Local 0 0" True u']
    s f s' u fu u'
  show ?thesis
    by (simp add: run_trace_append)
qed

text \<open>
  C4 as stated fails when the two references are the same variable: after the call
  returns, \<open>a\<close> is not 1234.
\<close>

theorem reference_params_alias_counterexample:
  "run_trace init (alias_trace @ [Ret_doSomethingWithReferenceParams 0]) \<noteq> None \<and>
   frames (the (run_trace init alias_trace)) 0 =
     DoSomethingWithReferenceParams_frame (Local 0 0) (Local 0 0) True \<and>
   mem (the (run_trace init (alias_trace @ [Ret_doSomethingWithReferenceParams 0]))) (Local 0 0) \<noteq> 1234"
  by (simp add: alias_trace_def run_defs)

text \<open>
  C5. \<open>take\<close> proceeds only on a non-empty queue. On the empty queue it blocks; on a
  queue \<open>op # rest\<close> it returns \<open>op\<close> and leaves \<open>rest\<close>, so on non-empty queues it is
  the function to (head, tail). A consumer woken while the queue is still empty checks
  the predicate again and goes back to sleep, the state unchanged; and whenever the worker
  comes out of \<open>take\<close> with a closure, that closure was the head of the queue.
\<close>

theorem take_waits_for_nonempty:
  "(ops_queue q = [] \<longrightarrow> take_op q = Blocked (q\<lparr>empty_waiting := True\<rparr>)) \<and>
   (\<forall>op rest. ops_queue q = op # rest \<longrightarrow> take_op q = Taken op (q\<lparr>ops_queue := rest\<rparr>)) \<and>
   (runnable (active s) = InTake \<and> empty_waiting (dispatchQueue (active s)) \<and>
    ops_queue (dispatchQueue (active s)) = [] \<longrightarrow>
      run_trace s [Spurious_wake, Worker_take] = Some s) \<and>
   (step s Worker_take = Some s' \<and> runnable (active s') = Running op' \<longrightarrow>
      ops_queue (dispatchQueue (active s)) = op' # ops_queue (dispatchQueue (active s')))"
  by (auto simp: take_op_def split: list.splits if_splits)

theorem take_waits_for_nonempty_witness:
  "take_op \<lparr>ops_queue = [], empty_waiting = False\<rparr> =
     Blocked \<lparr>ops_queue = [], empty_waiting = True\<rparr> \<and>
   take_op \<lparr>ops_queue = [DoSomethingElseOp, SetDone], empty_waiting = False\<rparr> =
     Taken DoSomethingElseOp \<lparr>ops_queue = [SetDone], empty_waiting = False\<rparr> \<and>
   run_trace init [Worker_test, Worker_take] = Some asleep \<and>
   run_trace asleep [Spurious_wake, Worker_take] = Some asleep \<and>
   map_option (\<lambda>s. (runnable (active s), ops_queue (dispatchQueue (active s))))
     (run_trace init [Call_doSomethingElse 0, Call_destructor 0, Worker_test, Worker_take]) =
     Some (Running DoSomethingElseOp, [SetDone])"
  using take_waits_for_nonempty [of "\<lparr>ops_queue = [], empty_waiting = False\<rparr>" asleep]
    take_waits_for_nonempty
      [of "\<lparr>ops_queue = [DoSomethingElseOp, SetDone], empty_waiting = False\<rparr>"
        "the (run_trace init [Call_doSomethingElse 0, Call_destructor 0, Worker_test])"
        "the (run_trace init [Call_doSomethingElse 0, Call_destructor 0, Worker_test, Worker_take])"
        DoSomethingElseOp]
  by (simp add: asleep_def run_defs)

text \<open>
  C6. \<open>put\<close> never fails and never blocks: it is a total function with no error value.
  The new queue is the old one with the closure appended at the tail; what was queued
  before keeps its place and order; the sleeping consumer is notified.
\<close>

theorem put_appends_at_tail:
  "ops_queue (put op q) = ops_queue q @ [op] \<and>
   take (length (ops_queue q)) (ops_queue (put op q)) = ops_queue q \<and>
   last (ops_queue (put op q)) = op \<and>
   \<not> empty_waiting (put op q)"
  by (simp add: put_def)

text \<open>
  C7. The claim is that \<^verbatim>\<open>val\<close> is touched by the worker only, inside a closure taken
  from the queue. Every write of \<^verbatim>\<open>val\<close> is indeed a step of the worker
  (\<open>val_written_by_worker\<close>), but \<^verbatim>\<open>getVal\<close> reads the field on the calling thread
  with no closure and no synchronisation. In the schedule \<open>race_trace\<close> of \<^verbatim>\<open>main\<close> the
  closure of \<^verbatim>\<open>doSomethingElse\<close> has been put but not run when \<^verbatim>\<open>main\<close> calls
  \<^verbatim>\<open>getVal\<close>, which returns 0: the assertion of line 137 fails there, while in the
  schedule \<open>main_trace\<close> it holds.
\<close>

theorem getVal_read_on_caller_thread:
  "run_trace init race_trace \<noteq> None \<and>
   last race_trace = Call_getVal 0 \<and>
   val_access (Call_getVal 0) = Some (Caller 0) \<and>
   puts_of race_trace =
     [DoSomethingOp 0, DoSomethingWithParamsOp 5 7,
      DoSomethingWithReferenceParamsOp (Local 0 0) (Local 0 1) 0, DoSomethingElseOp] \<and>
   getVal (active (the (run_trace init race_trace))) = 0 \<and>
   getVal (active (the (run_trace init main_trace))) = 2"
  by (simp add: race_trace_def main_trace_def run_defs getVal_def)

text \<open>
  C8. \<^verbatim>\<open>doSomethingWithParams\<close> captures its parameters by value. A free caller can
  always make the call; it returns at once, the caller still free, and the queue has
  gained a closure that holds the values the arguments had at the call. Run in any later
  state, whatever has happened to the caller's variables since, that closure prints
  exactly those values and changes nothing else.
\<close>

theorem params_captured_by_value:
  "frames s t = Idle \<longrightarrow>
     (\<exists>s1. step s (Call_doSomethingWithParams t (mem s x) (mem s y)) = Some s1 \<and>
        frames s1 t = Idle \<and>
        ops_queue (dispatchQueue (active s1)) =
          ops_queue (dispatchQueue (active s)) @ [DoSomethingWithParamsOp (mem s x) (mem s y)]) \<and>
     (\<forall>s2. call_op (DoSomethingWithParamsOp (mem s x) (mem s y)) s2 =
        Inr (s2\<lparr>cout := cout s2 @
          [OutStr ''this is the internal implementation of doSomethingWithParams('',
           OutInt (mem s x), OutStr '','', OutInt (mem s y), OutStr '')\<newline>'']\<rparr>))"
  by (simp add: step_defs)

theorem params_captured_by_value_witness:
  "run_trace init value_trace \<noteq> None \<and>
   mem (the (run_trace init (take 2 value_trace))) (Local 0 0) = 5 \<and>
   mem (the (run_trace init (take 2 value_trace))) (Local 0 1) = 7 \<and>
   frames (the (run_trace init (take 3 value_trace))) 0 = Idle \<and>
   ops_queue (dispatchQueue (active (the (run_trace init (take 3 value_trace))))) =
     [DoSomethingWithParamsOp 5 7] \<and>
   mem (the (run_trace init value_trace)) (Local 0 0) = 100 \<and>
   mem (the (run_trace init value_trace)) (Local 0 1) = 200 \<and>
   cout (the (run_trace init value_trace)) =
     [OutStr ''this is the internal implementation of doSomethingWithParams('',
      OutInt 5, OutStr '','', OutInt 7, OutStr '')\<newline>'']"
proof -
  obtain s where s: "run_trace init (take 2 value_trace) = Some s"
    by (simp add: value_trace_def run_defs)
  then have m: "mem s (Local 0 0) = 5" "mem s (Local 0 1) = 7" and f: "frames s 0 = Idle"
    and q: "ops_queue (dispatchQueue (active s)) = []"
    by (auto simp: value_trace_def run_defs)
  from params_captured_by_value [of s 0 "Local 0 0" "Local 0 1"] f m q
  obtain s1 where s1: "step s (Call_doSomethingWithParams 0 5 7) = Some s1"
    and f1: "frames s1 0 = Idle"
    and q1: "ops_queue (dispatchQueue (active s1)) = [DoSomethingWithParamsOp 5 7]"
    by auto
  have "take 3 value_trace = take 2 value_trace @ [Call_doSomethingWithParams 0 5 7]"
    by (simp add: value_trace_def)
  with s s1 have t3: "run_trace init (take 3 value_trace) = Some s1"
    by (simp add: run_trace_append)
  have "run_trace init value_trace \<noteq> None \<and>
   mem (the (run_trace init value_trace)) (Local 0 0) = 100 \<and>
   mem (the (run_trace init value_trace)) (Local 0 1) = 200 \<and>
   cout (the (run_trace init value_trace)) =
     [OutStr ''this is the internal implementation of doSomethingWithParams('',
      OutInt 5, OutStr '','', OutInt 7, OutStr '')\<newline>'']"
    by (simp add: value_trace_def run_defs)
  with s m t3 f1 q1 show ?thesis by simp
qed

text \<open>
  C9. What is put after shutdown was requested is never run. In every reachable state
  what the worker has run is a prefix of the closures put before the first sentinel
  followed by that sentinel. And once \<^verbatim>\<open>done\<close> is set, in every continuation the worker
  runs nothing and takes nothing, and the queue is the queue at that moment followed
  by everything put since.
\<close>

theorem no_service_after_shutdown:
  "run_trace init tr = Some s \<longrightarrow>
     (\<exists>rest. takeWhile (\<lambda>op. op \<noteq> SetDone) (puts_of tr) @ [SetDone] = execs_of tr @ rest) \<and>
     (done (active s) \<and> run_trace s tr' = Some s' \<longrightarrow>
        execs_of tr' = [] \<and> Worker_take \<notin> set tr' \<and>
        ops_queue (dispatchQueue (active s')) =
          ops_queue (dispatchQueue (active s)) @ puts_of tr')"
proof (intro impI conjI)
  assume r: "run_trace init tr = Some s"
  from executed_before_sentinel [OF r]
  show "\<exists>rest. takeWhile (\<lambda>op. op \<noteq> SetDone) (puts_of tr) @ [SetDone] = execs_of tr @ rest" .
  assume a: "done (active s) \<and> run_trace s tr' = Some s'"
  from inv_reachable [OF r] have w: "inv_worker s" by (simp add: inv_def)
  from a run_trace_after_done [of s tr' s'] w
  show "execs_of tr' = []" "Worker_take \<notin> set tr'"
    "ops_queue (dispatchQueue (active s')) = ops_queue (dispatchQueue (active s)) @ puts_of tr'"
    by simp_all
qed

theorem no_service_after_shutdown_witness:
  "map_option (\<lambda>s. done (active s)) (run_trace init shutdown_trace) = Some True \<and>
   puts_of shutdown_trace = [DoSomethingElseOp, SetDone, DoSomethingWithParamsOp 3 4] \<and>
   execs_of shutdown_trace = [DoSomethingElseOp, SetDone] \<and>
   map_option (\<lambda>s. (runnable (active s), ops_queue (dispatchQueue (active s))))
     (run_trace init (shutdown_trace @ late_trace)) =
     Some (Exited, [DoSomethingWithParamsOp 3 4, DoSomethingElseOp, DoSomethingOp 1]) \<and>
   execs_of late_trace = [] \<and> Worker_take \<notin> set late_trace"
proof -
  obtain s where s: "run_trace init shutdown_trace = Some s"
    by (simp add: shutdown_trace_def run_defs)
  obtain s' where s': "run_trace s late_trace = Some s'"
    using s by (auto simp: shutdown_trace_def late_trace_def run_defs)
  from s have d: "done (active s)"
    by (auto simp: shutdown_trace_def run_defs)
  from s have q: "ops_queue (dispatchQueue (active s)) = [DoSomethingWithParamsOp 3 4]"
    by (auto simp: shutdown_trace_def run_defs)
  from s s' have both: "run_trace init (shutdown_trace @ late_trace) = Some s'"
    by (simp add: run_trace_append)
  from s' s have "runnable (active s') = Exited"
    by (auto simp: shutdown_trace_def late_trace_def run_defs)
  with no_service_after_shutdown [of shutdown_trace s late_trace s'] s s' d q both
  show ?thesis
    by (simp add: shutdown_trace_def late_trace_def)
qed

text \<open>
  C10. \<open>getVal\<close> reads the field on the calling thread: the call puts nothing on the
  queue, can be made whenever the caller is free, and leaves the state as it is. In every
  reachable state it returns 0, the constructor's value, as long as the worker has not run
  the closure of \<^verbatim>\<open>doSomethingElse\<close>, and 2 once it has.
\<close>

theorem getVal_reads_directly:
  "run_trace init tr = Some s \<longrightarrow>
     getVal (active s) = (if DoSomethingElseOp \<in> set (execs_of tr) then 2 else 0) \<and>
     val_access (Call_getVal t) = Some (Caller t) \<and>
     put_of (Call_getVal t) = [] \<and>
     (frames s t = Idle \<longrightarrow> step s (Call_getVal t) = Some s)"
proof
  assume "run_trace init tr = Some s"
  from run_trace_val [OF this] show
    "getVal (active s) = (if DoSomethingElseOp \<in> set (execs_of tr) then 2 else 0) \<and>
     val_access (Call_getVal t) = Some (Caller t) \<and>
     put_of (Call_getVal t) = [] \<and>
     (frames s t = Idle \<longrightarrow> step s (Call_getVal t) = Some s)"
    by (simp add: getVal_def init_def BecomeActiveObject_new_def)
qed

theorem getVal_reads_directly_witness:
  "map_option (\<lambda>s. getVal (active s)) (run_trace init [Call_doSomethingElse 0]) = Some 0 \<and>
   map_option (\<lambda>s. getVal (active s))
     (run_trace init [Call_doSomethingElse 0, Call_getVal 0]) = Some 0 \<and>
   map_option (\<lambda>s. getVal (active s))
     (run_trace init [Call_doSomethingElse 0, Worker_test, Worker_take,
        Worker_exec DoSomethingElseOp, Call_getVal 0]) = Some 2 \<and>
   run_trace init [Call_doSomethingElse 0, Call_getVal 0] = run_trace init [Call_doSomethingElse 0]"
  using getVal_reads_directly [of "[Call_doSomethingElse 0]"
      "the (run_trace init [Call_doSomethingElse 0])" 0]
    getVal_reads_directly [of "[Call_doSomethingElse 0, Worker_test, Worker_take,
        Worker_exec DoSomethingElseOp]"
      "the (run_trace init [Call_doSomethingElse 0, Worker_test, Worker_take,
        Worker_exec DoSomethingElseOp])" 0]
  by (simp add: run_defs getVal_def)

end
